theory Spec2Isabelle
  imports Main "HOL-Library.Word"
begin

unbundle bit_operations_syntax

section \<open>The virtio-net driver of net/virtio.cc\<close>

text \<open>
  A shallow embedding of the split-ring engine (class \<open>vring\<close>), of the transmit and
  receive adapters (\<open>virtio_net_device::txq\<close>, \<open>virtio_net_device::rxq\<close>) and of the
  \<open>ring_size\<close> getter. Machine integers are words of the width the source declares;
  a failed \<open>assert\<close> and an access outside an array are values of type \<open>error\<close>.
\<close>

datatype error =
    Assert_failed    \<comment> \<open>an \<open>assert\<close> of the source fails: the process aborts\<close>
  | Out_of_bounds    \<comment> \<open>the source indexes an array outside its bounds (undefined behaviour)\<close>
  | Bad_any_cast     \<comment> \<open>\<open>variable_value::as\<close> on an empty or differently typed value throws\<close>

subsection \<open>The ring-size option\<close>

text \<open>
  The options are a \<open>boost::program_options::variables_map\<close>: a map from option names
  to typed values. \<open>count\<close> is 1 for a stored key and 0 otherwise; \<open>operator[]\<close> on a
  missing key gives an empty value, on which \<open>as\<close> throws \<open>bad_any_cast\<close>.
\<close>

datatype variable_value = String_value string | Unsigned_value "32 word"

type_synonym variables_map = "string \<rightharpoonup> variable_value"

definition count :: "variables_map \<Rightarrow> string \<Rightarrow> nat" where
  "count opts k = (case opts k of None \<Rightarrow> 0 | Some _ \<Rightarrow> 1)"

definition as_unsigned :: "variable_value option \<Rightarrow> error + 32 word" where
  "as_unsigned x = (case x of Some (Unsigned_value n) \<Rightarrow> Inr n | _ \<Rightarrow> Inl Bad_any_cast)"

text \<open>\<open>size_t virtio_net_device::ring_size()\<close>: the \<open>unsigned\<close> option widens to \<open>size_t\<close>.\<close>

definition ring_size :: "variables_map \<Rightarrow> error + 64 word" where
  "ring_size opts =
     (if count opts ''event-index'' \<noteq> 0
      then (case as_unsigned (opts ''virtio-ring-size'') of
              Inl e \<Rightarrow> Inl e
            | Inr n \<Rightarrow> Inr (ucast n))
      else Inr 256)"

subsection \<open>The virtio-net header built by \<open>txq::post\<close>\<close>

text \<open>
  \<open>struct net_hdr_mrg\<close>: a one-bit \<open>needs_csum\<close>, seven reserved bits, an 8-bit
  \<open>gso_type\<close> and five 16-bit fields.
\<close>

record net_hdr_mrg =
  needs_csum :: "1 word"
  flags_reserved :: "7 word"
  gso_type :: "8 word"
  hdr_len :: "16 word"
  gso_size :: "16 word"
  csum_start :: "16 word"
  csum_offset :: "16 word"
  num_buffers :: "16 word"

definition gso_none :: "8 word" where "gso_none = 0"
definition gso_tcpv4 :: "8 word" where "gso_tcpv4 = 1"
definition gso_udp :: "8 word" where "gso_udp = 3"

text \<open>\<open>net_hdr_mrg vhdr = {}\<close>: every field zero.\<close>

definition vhdr_zero :: net_hdr_mrg where
  "vhdr_zero = \<lparr>needs_csum = 0, flags_reserved = 0, gso_type = 0, hdr_len = 0,
                gso_size = 0, csum_start = 0, csum_offset = 0, num_buffers = 0\<rparr>"

text \<open>
  The packet's offload metadata and the device features are declared in net/ip.hh,
  net/packet.hh and net/net.hh, which are not part of the translated file. Their
  unsigned fields are taken as natural numbers (any unsigned width), and
  \<open>sizeof(eth_hdr)\<close> is a parameter of the header construction.
\<close>

datatype ip_protocol_num = icmp | tcp | udp | unused

record offload_info =
  protocol :: ip_protocol_num
  ip_hdr_len :: nat
  tcp_hdr_len :: nat
  udp_hdr_len :: nat

record hw_features =
  tx_csum_offload :: bool
  rx_csum_offload :: bool
  tx_tso :: bool
  tx_ufo :: bool
  mtu :: nat

text \<open>
  The header block of \<open>txq::post\<close> (the code up to the comment
  \<open>prepend virtio-net header\<close>). Every right-hand side is computed in an integer type
  of at least 32 bits and stored into a \<open>uint16_t\<close> field, which keeps the value
  modulo \<open>2 ^ 16\<close>: \<open>of_nat\<close> and \<open>word_of_int\<close> into \<open>16 word\<close>. The difference
  \<open>mtu - ip_hdr_len - tcp_hdr_len\<close> may be negative before the store. The comparison
  \<open>p.len() > mtu + eth_hdr_len\<close> is made in \<open>size_t\<close>.
\<close>

definition txq_vhdr :: "nat \<Rightarrow> hw_features \<Rightarrow> offload_info \<Rightarrow> nat \<Rightarrow> net_hdr_mrg" where
  "txq_vhdr eth_hdr_len hw oi p_len =
     (let vhdr = vhdr_zero in
      if tx_csum_offload hw then
        if protocol oi = tcp then
          let vhdr = vhdr\<lparr>needs_csum := 1,
                          csum_start := of_nat (eth_hdr_len + ip_hdr_len oi),
                          csum_offset := 16\<rparr>
          in if tx_tso hw \<and> p_len > mtu hw + eth_hdr_len
             then vhdr\<lparr>gso_type := gso_tcpv4,
                       hdr_len := of_nat (eth_hdr_len + ip_hdr_len oi + tcp_hdr_len oi),
                       gso_size := word_of_int (int (mtu hw) - int (ip_hdr_len oi)
                                                - int (tcp_hdr_len oi))\<rparr>
             else vhdr
        else if protocol oi = udp then
          let vhdr = vhdr\<lparr>needs_csum := 1,
                          csum_start := of_nat (eth_hdr_len + ip_hdr_len oi),
                          csum_offset := 6\<rparr>
          in if tx_ufo hw \<and> p_len > mtu hw + eth_hdr_len
             then vhdr\<lparr>gso_type := gso_udp,
                       hdr_len := of_nat (eth_hdr_len + ip_hdr_len oi + udp_hdr_len oi),
                       gso_size := word_of_int (int (mtu hw) - int (ip_hdr_len oi)
                                                - int (udp_hdr_len oi))\<rparr>
             else vhdr
        else vhdr
      else vhdr)"

text \<open>The inputs of the scenario: a TCP frame with 20-byte IP and TCP headers, mtu 1500.\<close>

definition hw_offload :: hw_features where
  "hw_offload = \<lparr>tx_csum_offload = True, rx_csum_offload = True, tx_tso = True,
                  tx_ufo = True, mtu = 1500\<rparr>"

definition oi_tcp :: offload_info where
  "oi_tcp = \<lparr>protocol = tcp, ip_hdr_len = 20, tcp_hdr_len = 20, udp_hdr_len = 8\<rparr>"

definition oi_udp :: offload_info where
  "oi_udp = \<lparr>protocol = udp, ip_hdr_len = 20, tcp_hdr_len = 20, udp_hdr_len = 8\<rparr>"

subsection \<open>The split ring: \<open>class vring\<close>\<close>

text \<open>
  \<open>vring::desc\<close> with its three flag bits, \<open>vring::used_elem\<close> and \<open>vring::buffer\<close>.
\<close>

record desc =
  d_paddr :: "64 word"
  d_len :: "32 word"
  d_has_next :: bool
  d_writeable :: bool
  d_indirect :: bool
  d_next :: "16 word"

record used_elem =
  ue_id :: "32 word"
  ue_len :: "32 word"

text \<open>
  \<open>net::fragment\<close> and \<open>net::packet\<close> are declared in net/packet.hh, which is not part
  of the translated file: a packet is used here through its fragment list
  (\<open>fragments()\<close>, \<open>nr_frags()\<close>, \<open>len()\<close>) and through the buffers its deleter owns.
\<close>

record fragment =
  f_base :: "64 word"
  f_size :: "64 word"

record packet =
  p_fragments :: "fragment list"
  p_deleters :: "64 word list"

definition nr_frags :: "packet \<Rightarrow> nat" where
  "nr_frags p = length (p_fragments p)"

text \<open>\<open>len()\<close>: the bytes of the packet, the sum of its fragment sizes.\<close>

definition packet_len :: "packet \<Rightarrow> nat" where
  "packet_len p = sum_list (map (\<lambda>f. unat (f_size f)) (p_fragments p))"

text \<open>
  A \<open>promise<size_t>\<close> is represented by the continuation the source attaches to its
  future: none (a default-constructed promise, or a buffer of a TX chain other than
  the first), the destruction of a sent packet (\<open>txq::post\<close>), or the reassembly
  step of the RX buffer at a given address (\<open>rxq::prepare_buffers\<close>).
\<close>

datatype promise = Unattached | Tx_done packet | Rx_done "64 word"

record buffer =
  b_addr :: "64 word"
  b_len :: "32 word"
  b_completed :: promise
  b_writeable :: bool

text \<open>
  The state of a \<open>vring\<close>: its configuration (\<open>_config.size\<close>, \<open>_config.event_index\<close>),
  the three shared regions (the descriptor table; the available ring with its flags,
  index, slots and trailing \<open>used_event\<close>; the used ring with its flags, index,
  elements and trailing \<open>avail_event\<close>) and the private members. The arrays are lists;
  an index outside a list is the error \<open>Out_of_bounds\<close>. \<open>v_fulfilled\<close> records the
  calls of \<open>set_value\<close> in order, \<open>v_kicks\<close> counts the calls of \<open>_kick.signal(1)\<close>,
  and \<open>v_available_descriptors\<close> is the count of the semaphore.
\<close>

record vring =
  v_size :: nat
  v_event_index :: bool
  v_descs :: "desc list"
  v_avail_flags :: "16 word"
  v_avail_idx :: "16 word"
  v_avail_ring :: "16 word list"
  v_used_event :: "16 word"
  v_used_flags :: "16 word"
  v_used_idx :: "16 word"
  v_used_elements :: "used_elem list"
  v_avail_event :: "16 word"
  v_avail_head :: "16 word"
  v_avail_added_since_kick :: "16 word"
  v_used_tail :: "16 word"
  v_completions :: "promise list"
  v_fulfilled :: "(promise \<times> 32 word) list"
  v_available_descriptors :: nat
  v_free_desc :: int
  v_kicks :: nat

text \<open>
  The two flag constants come from virtio-interface.hh, which is not part of the
  translated file; \<open>used_layout::no_notify = 1\<close> in the source gives the second, and
  the first is the bit of \<open>avail_layout::flags::no_interrupts\<close>.
\<close>

definition VRING_AVAIL_F_NO_INTERRUPT :: "16 word" where
  "VRING_AVAIL_F_NO_INTERRUPT = 1"

definition VRING_USED_F_NO_NOTIFY :: "16 word" where
  "VRING_USED_F_NO_NOTIFY = 1"

definition disable_interrupts :: "vring \<Rightarrow> vring" where
  "disable_interrupts v =
     (if \<not> v_event_index v then v\<lparr>v_avail_flags := VRING_AVAIL_F_NO_INTERRUPT\<rparr> else v)"

text \<open>\<open>enable_interrupts\<close> returns whether buffers are pending, and the new state.\<close>

definition enable_interrupts :: "vring \<Rightarrow> bool \<times> vring" where
  "enable_interrupts v =
     (let tail = v_used_tail v;
          v1 = (if \<not> v_event_index v then v\<lparr>v_avail_flags := 0\<rparr>
                else v\<lparr>v_used_event := tail\<rparr>);
          used_head = v_used_idx v1
      in (used_head \<noteq> tail, v1))"

definition notifications_disabled :: "vring \<Rightarrow> bool" where
  "notifications_disabled v \<longleftrightarrow> (v_used_flags v AND VRING_USED_F_NO_NOTIFY) \<noteq> 0"

text \<open>
  \<open>vring::kick\<close>. \<open>(uint16_t)(avail_idx - avail_event - 1)\<close> is the difference of
  16-bit words; \<open>(uint16_t)(~0) / 2\<close> is \<open>65535 / 2 = 32767\<close>. The first part gives
  \<open>need_kick\<close>, or the unchanged state where the source returns early.
\<close>

definition kick :: "vring \<Rightarrow> vring" where
  "kick v =
     (let need_kick = True in
      case (if v_event_index v then
              let avail_idx = v_avail_idx v;
                  avail_event = v_avail_event v
              in Inr (avail_idx - avail_event - 1 < v_avail_added_since_kick v)
            else if notifications_disabled v then Inl v
            else Inr need_kick) of
        Inl returned \<Rightarrow> returned
      | Inr need_kick \<Rightarrow>
          if need_kick \<or> v_avail_added_since_kick v \<ge> (NOT 0) div 2
          then v\<lparr>v_kicks := v_kicks v + 1, v_avail_added_since_kick := 0\<rparr>
          else v)"

text \<open>
  \<open>masked(idx) = idx & (size() - 1)\<close>. For \<open>size() = 0\<close> the source's mask is all ones
  and every slot is outside the (empty) arrays; here the slot is 0, which is outside
  them as well.
\<close>

definition masked :: "vring \<Rightarrow> nat \<Rightarrow> nat" where
  "masked v idx = idx AND (v_size v - 1)"

text \<open>
  \<open>allocate_desc\<close>: \<open>_free_desc\<close> is an \<open>int\<close>, \<open>_next\<close> a \<open>uint16_t\<close>, so the \<open>-1\<close>
  that ends the free list is read back from a descriptor as 65535.
\<close>

definition allocate_desc :: "vring \<Rightarrow> error + (nat \<times> vring)" where
  "allocate_desc v =
     (if v_free_desc v = - 1 then Inl Assert_failed
      else if v_free_desc v < 0 \<or> nat (v_free_desc v) \<ge> length (v_descs v)
      then Inl Out_of_bounds
      else let desc = nat (v_free_desc v)
           in Inr (desc, v\<lparr>v_free_desc := uint (d_next (v_descs v ! desc))\<rparr>))"

definition free_desc :: "vring \<Rightarrow> nat \<Rightarrow> error + vring" where
  "free_desc v did =
     (if did \<ge> length (v_descs v) then Inl Out_of_bounds
      else Inr (v\<lparr>v_descs := (v_descs v)[did := (v_descs v ! did)\<lparr>d_next := word_of_int (v_free_desc v)\<rparr>],
                 v_free_desc := int did,
                 v_available_descriptors := v_available_descriptors v + 1\<rparr>))"

text \<open>\<open>vring::setup\<close>: \<open>free_desc(i)\<close> for \<open>i = 0, ..., size - 1\<close>.\<close>

definition vring_setup :: "vring \<Rightarrow> error + vring" where
  "vring_setup v = fold (\<lambda>i r. case r of Inl e \<Rightarrow> Inl e | Inr v' \<Rightarrow> free_desc v' i)
                  [0..<v_size v] (Inr v)"

text \<open>
  The constructor: the argument gives the configuration and the contents of the shared
  regions; the private members get their initial values and \<open>vring::setup\<close> runs.
\<close>

definition vring_ctor :: "vring \<Rightarrow> error + vring" where
  "vring_ctor m =
     vring_setup (m\<lparr>v_avail_head := 0, v_avail_added_since_kick := 0, v_used_tail := 0,
              v_completions := replicate (v_size m) Unattached, v_fulfilled := [],
              v_available_descriptors := 0, v_free_desc := - 1, v_kicks := 0\<rparr>)"

text \<open>
  The body of the \<open>for\<close> loop of \<open>vring::post\<close> over one chain, the buffers given in
  the order of the iteration (\<open>bc.rbegin()\<close> to \<open>bc.rend()\<close>); it returns the state and
  \<open>prev_desc_idx\<close>.
\<close>

fun post_buffers :: "vring \<Rightarrow> buffer list \<Rightarrow> bool \<Rightarrow> nat \<Rightarrow> error + (vring \<times> nat)" where
  "post_buffers v [] has_prev prev_desc_idx = Inr (v, prev_desc_idx)"
| "post_buffers v (i # bs) has_prev prev_desc_idx =
     (case allocate_desc v of
        Inl e \<Rightarrow> Inl e
      | Inr (desc_idx, v1) \<Rightarrow>
          if desc_idx \<ge> length (v_completions v1) then Inl Out_of_bounds
          else
            let d = \<lparr>d_paddr = b_addr i, d_len = b_len i, d_has_next = has_prev,
                     d_writeable = b_writeable i, d_indirect = False,
                     d_next = of_nat prev_desc_idx\<rparr>;
                v2 = v1\<lparr>v_descs := (v_descs v1)[desc_idx := d],
                        v_completions := (v_completions v1)[desc_idx := b_completed i]\<rparr>
            in post_buffers v2 bs True desc_idx)"

text \<open>One chain: the lambda given to \<open>std::for_each\<close> in \<open>vring::post\<close>.\<close>

definition post_chain :: "vring \<Rightarrow> buffer list \<Rightarrow> error + vring" where
  "post_chain v bc =
     (case post_buffers v (rev bc) False 0 of
        Inl e \<Rightarrow> Inl e
      | Inr (v1, desc_head) \<Rightarrow>
          let slot = masked v1 (unat (v_avail_head v1))
          in if slot \<ge> length (v_avail_ring v1) then Inl Out_of_bounds
             else Inr (v1\<lparr>v_avail_ring := (v_avail_ring v1)[slot := of_nat desc_head],
                          v_avail_head := v_avail_head v1 + 1,
                          v_avail_added_since_kick := v_avail_added_since_kick v1 + 1\<rparr>))"

fun post_chains :: "vring \<Rightarrow> buffer list list \<Rightarrow> error + vring" where
  "post_chains v [] = Inr v"
| "post_chains v (bc # bcs) =
     (case post_chain v bc of Inl e \<Rightarrow> Inl e | Inr v1 \<Rightarrow> post_chains v1 bcs)"

text \<open>The descriptor \<open>post_buffers\<close> writes for a buffer.\<close>

definition posted_desc :: "buffer \<Rightarrow> bool \<Rightarrow> nat \<Rightarrow> desc" where
  "posted_desc b has_next nxt =
     \<lparr>d_paddr = b_addr b, d_len = b_len b, d_has_next = has_next,
      d_writeable = b_writeable b, d_indirect = False, d_next = of_nat nxt\<rparr>"

text \<open>
  The inner loop of \<open>do_complete\<close>: it follows \<open>_next\<close> while \<open>has_next\<close> is set and
  frees every descriptor it meets. Nothing bounds the walk, so the model takes fuel:
  \<open>None\<close> means the fuel ran out before the loop ended.
\<close>

fun free_chain :: "nat \<Rightarrow> vring \<Rightarrow> nat \<Rightarrow> (error + vring) option" where
  "free_chain 0 v did = None"
| "free_chain (Suc fuel) v did =
     (if did \<ge> length (v_descs v) then Some (Inl Out_of_bounds)
      else
        let d = v_descs v ! did;
            next = d_next d;
            has_next = d_has_next d
        in case free_desc v did of
             Inl e \<Rightarrow> Some (Inl e)
           | Inr v1 \<Rightarrow> if has_next then free_chain fuel v1 (unat next) else Some (Inr v1))"

text \<open>One used element: fulfil the promise of its head, then free its chain.\<close>

definition complete_one :: "nat \<Rightarrow> vring \<Rightarrow> (error + vring) option" where
  "complete_one fuel v =
     (let slot = masked v (unat (v_used_tail v));
          v1 = v\<lparr>v_used_tail := v_used_tail v + 1\<rparr>
      in if slot \<ge> length (v_used_elements v) then Some (Inl Out_of_bounds)
         else
           let ue = v_used_elements v ! slot
           in if unat (ue_id ue) \<ge> length (v_completions v1) then Some (Inl Out_of_bounds)
              else
                let v2 = v1\<lparr>v_fulfilled := v_fulfilled v1 @
                                 [(v_completions v1 ! unat (ue_id ue), ue_len ue)]\<rparr>
                in free_chain fuel v2 (unat (ue_id ue)))"

text \<open>
  The outer loop of \<open>do_complete\<close> over the used elements between \<open>_used._tail\<close> and
  the value of \<open>used.idx\<close> loaded before it.
\<close>

function drain :: "nat \<Rightarrow> vring \<Rightarrow> 16 word \<Rightarrow> (error + vring) option" where
  "drain fuel v used_head =
     (if used_head \<noteq> v_used_tail v then
        (case complete_one fuel v of
           None \<Rightarrow> None
         | Some (Inl e) \<Rightarrow> Some (Inl e)
         | Some (Inr v1) \<Rightarrow> drain fuel v1 used_head)
      else Some (Inr v))"
  by pat_completeness auto
termination
proof (relation "measure (\<lambda>(fuel, v, used_head). unat (used_head - v_used_tail v))")
  show "wf (measure (\<lambda>(fuel, v, used_head). unat (used_head - v_used_tail v)))"
    by simp
next
  fix fuel :: nat and v :: vring and used_head :: "16 word" and r v1
  assume ne: "used_head \<noteq> v_used_tail v"
    and run: "complete_one fuel v = Some r" and r: "r = Inr v1"
  have free_desc_tail: "v_used_tail b = v_used_tail a" if "free_desc a i = Inr b" for a b i
    using that by (auto simp: free_desc_def split: if_splits)
  have walk: "v_used_tail b = v_used_tail a" if "free_chain f a i = Some (Inr b)" for f a b i
    using that
  proof (induction f arbitrary: a i)
    case 0
    then show ?case by simp
  next
    case (Suc f)
    then show ?case
      by (auto simp: Let_def split: if_splits sum.splits dest: free_desc_tail)
  qed
  have "v_used_tail v1 = v_used_tail v + 1"
    using run r by (auto simp: complete_one_def Let_def split: if_splits dest!: walk)
  moreover have "unat (used_head - (v_used_tail v + 1)) < unat (used_head - v_used_tail v)"
  proof -
    define x where "x = used_head - v_used_tail v"
    have nz: "x \<noteq> 0"
      using ne by (simp add: x_def)
    then have "0 < unat x"
      by (simp add: unat_gt_0)
    then have lt: "unat (x - 1) < unat x"
      using nz by (simp add: unat_minus_one)
    have eq: "used_head - (v_used_tail v + 1) = x - 1"
      by (simp add: x_def)
    show ?thesis
      using lt unfolding eq x_def .
  qed
  ultimately show "((fuel, v1, used_head), (fuel, v, used_head))
      \<in> measure (\<lambda>(fuel, v, used_head). unat (used_head - v_used_tail v))"
    by simp
qed

declare drain.simps [simp del]

text \<open>
  \<open>vring::do_complete\<close>: each pass of the \<open>do ... while (enable_interrupts())\<close> loop
  takes one unit of fuel, and the walks of that pass get the fuel of the pass.
\<close>

fun do_complete :: "nat \<Rightarrow> vring \<Rightarrow> (error + vring) option" where
  "do_complete 0 v = None"
| "do_complete (Suc fuel) v =
     (let v0 = disable_interrupts v;
          used_head = v_used_idx v0
      in case drain (Suc fuel) v0 used_head of
           None \<Rightarrow> None
         | Some (Inl e) \<Rightarrow> Some (Inl e)
         | Some (Inr v1) \<Rightarrow>
             (case enable_interrupts v1 of
                (pending, v2) \<Rightarrow> if pending then do_complete fuel v2 else Some (Inr v2)))"

text \<open>\<open>vring::post\<close> over a sequence of chains.\<close>

definition post :: "nat \<Rightarrow> vring \<Rightarrow> buffer list list \<Rightarrow> (error + vring) option" where
  "post fuel v bcs =
     (case post_chains v bcs of
        Inl e \<Rightarrow> Some (Inl e)
      | Inr v1 \<Rightarrow> do_complete fuel (kick (v1\<lparr>v_avail_idx := v_avail_head v1\<rparr>)))"

text \<open>
  \<open>semaphore::wait(n)\<close> followed by a continuation: the continuation runs once the
  count reaches \<open>n\<close>, and takes \<open>n\<close> units. \<open>Blocked\<close> is the state of a wait that the
  present count does not satisfy.
\<close>

datatype 'a waiting = Blocked | Proceeds 'a

definition semaphore_wait :: "vring \<Rightarrow> nat \<Rightarrow> vring waiting" where
  "semaphore_wait v n =
     (if v_available_descriptors v \<ge> n
      then Proceeds (v\<lparr>v_available_descriptors := v_available_descriptors v - n\<rparr>)
      else Blocked)"

text \<open>\<open>semaphore::try_wait(n)\<close>: takes \<open>n\<close> units if they are there, and says whether it did.\<close>

definition semaphore_try_wait :: "vring \<Rightarrow> nat \<Rightarrow> bool \<times> vring" where
  "semaphore_try_wait v n =
     (if v_available_descriptors v \<ge> n
      then (True, v\<lparr>v_available_descriptors := v_available_descriptors v - n\<rparr>)
      else (False, v))"

subsection \<open>The transmit queue\<close>

text \<open>
  Modelled from the spec: the constructor \<open>packet(fragment, packet&&)\<close> of
  net/packet.hh, which is not part of the translated file. By section 4.2 "the
  virtio-net header is prepended as the first fragment of the outgoing packet".
\<close>

definition packet_prepend :: "fragment \<Rightarrow> packet \<Rightarrow> packet" where
  "packet_prepend frag p = p\<lparr>p_fragments := frag # p_fragments p\<rparr>"

text \<open>The buffer built for one fragment in the continuation of \<open>txq::post\<close>.\<close>

definition tx_buffer :: "fragment \<Rightarrow> buffer" where
  "tx_buffer f = \<lparr>b_addr = f_base f, b_len = ucast (f_size f), b_completed = Unattached,
                  b_writeable = False\<rparr>"

text \<open>
  The chain of \<open>txq::post\<close>: one buffer per fragment, the promise of the first one
  carrying the destruction of the packet. \<open>bc[0]\<close> on an empty chain is outside the
  vector.
\<close>

definition tx_chain :: "packet \<Rightarrow> error + buffer list" where
  "tx_chain q =
     (case map tx_buffer (p_fragments q) of
        [] \<Rightarrow> Inl Out_of_bounds
      | b # bs \<Rightarrow> Inr (b\<lparr>b_completed := Tx_done q\<rparr> # bs))"

text \<open>
  \<open>txq::post\<close>: \<open>eth_hdr_len\<close> is \<open>sizeof(eth_hdr)\<close>, \<open>header_len\<close> the device's
  \<open>_header_len\<close>, \<open>vhdr_base\<close> the address of the header, \<open>oi\<close> the packet's
  \<open>offload_info()\<close>. The result gives the number of permits waited for, the header
  and what the continuation did.
\<close>

record tx_posted =
  tx_vhdr :: net_hdr_mrg
  tx_permits :: nat
  tx_ring :: "(error + vring) option waiting"

definition txq_post ::
  "nat \<Rightarrow> hw_features \<Rightarrow> 64 word \<Rightarrow> 64 word \<Rightarrow> nat \<Rightarrow> vring \<Rightarrow> offload_info \<Rightarrow> packet
   \<Rightarrow> tx_posted" where
  "txq_post eth_hdr_len hw header_len vhdr_base fuel ring oi p =
     (let vhdr = txq_vhdr eth_hdr_len hw oi (packet_len p);
          q = packet_prepend \<lparr>f_base = vhdr_base, f_size = header_len\<rparr> p;
          n = nr_frags q
      in \<lparr>tx_vhdr = vhdr, tx_permits = n,
          tx_ring = (case semaphore_wait ring n of
                       Blocked \<Rightarrow> Blocked
                     | Proceeds ring1 \<Rightarrow>
                         Proceeds (case tx_chain q of
                                     Inl e \<Rightarrow> Some (Inl e)
                                   | Inr bc \<Rightarrow> post fuel ring1 [bc]))\<rparr>)"

subsection \<open>The receive queue\<close>

text \<open>
  The members of \<open>rxq\<close> that the completion of a buffer uses, with the device's
  \<open>_rx_ready\<close>: the packets handed to \<open>queue_rx_packet\<close>, in the order of the chained
  continuations.
\<close>

record rxq =
  rq_remaining_buffers :: "32 word"
  rq_fragments :: "fragment list"
  rq_deleters :: "64 word list"
  rq_rx_ready :: "packet list"

text \<open>
  The continuation attached to an RX buffer in \<open>make_buffer_chain\<close>. \<open>buf\<close> is the
  address of the buffer, \<open>hdr_num_buffers\<close> the \<open>num_buffers\<close> field the host wrote at
  its start, \<open>len\<close> the completed length as \<open>size_t\<close>, \<open>header_len\<close> the device's
  \<open>_header_len\<close>. After \<open>std::move(_deleters)\<close> the vector is empty.
\<close>

definition rx_completed :: "64 word \<Rightarrow> rxq \<Rightarrow> 64 word \<Rightarrow> 16 word \<Rightarrow> 64 word \<Rightarrow> error + rxq" where
  "rx_completed header_len q buf hdr_num_buffers len =
     (let frag_buf = buf;
          frag_len = len
      in case (if rq_remaining_buffers q = 0 then
                 if \<not> (hdr_num_buffers \<ge> 1) then Inl Assert_failed
                 else Inr (q\<lparr>rq_remaining_buffers := ucast hdr_num_buffers,
                             rq_fragments := [], rq_deleters := []\<rparr>,
                           frag_buf + header_len, frag_len - header_len)
               else Inr (q, frag_buf, frag_len)) of
           Inl e \<Rightarrow> Inl e
         | Inr (q1, frag_buf, frag_len) \<Rightarrow>
             let q2 = q1\<lparr>rq_fragments := rq_fragments q1 @
                                           [\<lparr>f_base = frag_buf, f_size = frag_len\<rparr>],
                         rq_deleters := rq_deleters q1 @ [buf],
                         rq_remaining_buffers := rq_remaining_buffers q1 - 1\<rparr>
             in if rq_remaining_buffers q2 = 0
                then Inr (q2\<lparr>rq_deleters := [],
                             rq_rx_ready := rq_rx_ready q2 @
                               [\<lparr>p_fragments = rq_fragments q2,
                                 p_deleters = rq_deleters q2\<rparr>]\<rparr>)
                else Inr q2)"

text \<open>
  The completions of a run of buffers in the order of the used ring, each given as
  the buffer address, the \<open>num_buffers\<close> field at its start and the completed length.
\<close>

fun rx_completions :: "64 word \<Rightarrow> rxq \<Rightarrow> (64 word \<times> 16 word \<times> 64 word) list \<Rightarrow> error + rxq" where
  "rx_completions header_len q [] = Inr q"
| "rx_completions header_len q ((buf, nb, len) # cs) =
     (case rx_completed header_len q buf nb len of
        Inl e \<Rightarrow> Inl e
      | Inr q1 \<Rightarrow> rx_completions header_len q1 cs)"

text \<open>The fragment a buffer other than the first contributes: its address and full length.\<close>

definition frag_of :: "64 word \<times> 16 word \<times> 64 word \<Rightarrow> fragment" where
  "frag_of c = \<lparr>f_base = fst c, f_size = snd (snd c)\<rparr>"

text \<open>
  \<open>rxq::prepare_buffers\<close>: wait for one permit, try to take every other permit there
  is, and post that many one-buffer writeable chains of 4096 bytes; \<open>alloc k\<close> is the
  address of the \<open>k\<close>-th buffer allocated.
\<close>

definition make_buffer_chain :: "64 word \<Rightarrow> buffer list" where
  "make_buffer_chain buf =
     [\<lparr>b_addr = buf, b_len = 4096, b_completed = Rx_done buf, b_writeable = True\<rparr>]"

definition prepare_buffers ::
  "nat \<Rightarrow> vring \<Rightarrow> (nat \<Rightarrow> 64 word) \<Rightarrow> (error + vring) option waiting" where
  "prepare_buffers fuel ring alloc =
     (case semaphore_wait ring 1 of
        Blocked \<Rightarrow> Blocked
      | Proceeds ring1 \<Rightarrow>
          let count = 1;
              opportunistic = v_available_descriptors ring1
          in case semaphore_try_wait ring1 opportunistic of
               (took, ring2) \<Rightarrow>
                 let count = (if took then count + opportunistic else count)
                 in Proceeds (post fuel ring2
                                (map (\<lambda>k. make_buffer_chain (alloc k)) [0..<count])))"

subsection \<open>Well-formed rings\<close>

text \<open>
  The free list: the descriptors linked through \<open>_next\<close> from \<open>_free_desc\<close>. It ends
  with the \<open>-1\<close> of the initial \<open>_free_desc\<close>, or with 65535 once that \<open>-1\<close> has passed
  through a 16-bit \<open>_next\<close> field.
\<close>

fun free_list :: "desc list \<Rightarrow> int \<Rightarrow> nat list \<Rightarrow> bool" where
  "free_list ds p [] \<longleftrightarrow> p = - 1 \<or> p = 65535"
| "free_list ds p (i # fs) \<longleftrightarrow>
     p = int i \<and> i < length ds \<and> free_list ds (uint (d_next (ds ! i))) fs"

text \<open>
  A chain as the host and \<open>do_complete\<close> walk it: \<open>has_next\<close> is set on every
  descriptor but the last, and \<open>_next\<close> of each names the one after it.
\<close>

fun is_chain :: "desc list \<Rightarrow> nat list \<Rightarrow> bool" where
  "is_chain ds [] \<longleftrightarrow> False"
| "is_chain ds [i] \<longleftrightarrow> i < length ds \<and> \<not> d_has_next (ds ! i)"
| "is_chain ds (i # j # js) \<longleftrightarrow>
     i < length ds \<and> d_has_next (ds ! i) \<and> unat (d_next (ds ! i)) = j \<and> is_chain ds (j # js)"

text \<open>
  The descriptors that the chains of one call of \<open>vring::post\<close> take from the free
  list \<open>fs\<close>: each chain takes as many as it has buffers from the front of what the
  chains before it left, and its first buffer gets the last of them.
\<close>

fun chain_descs :: "nat list \<Rightarrow> buffer list list \<Rightarrow> nat list list" where
  "chain_descs fs [] = []"
| "chain_descs fs (bc # bcs) =
     rev (take (length bc) fs) # chain_descs (drop (length bc) fs) bcs"

text \<open>
  A well-formed ring with free list \<open>fs\<close>, in-flight chains \<open>cs\<close> and \<open>r\<close> permits
  taken by producers that have not posted yet: the size is a power of two of at most
  \<open>2 ^ 16\<close>, the arrays have \<open>size\<close> entries, every descriptor is on the free list or in
  exactly one in-flight chain, and the semaphore counts the free descriptors that are
  not spoken for.
\<close>

definition vring_inv :: "vring \<Rightarrow> nat list \<Rightarrow> nat list list \<Rightarrow> nat \<Rightarrow> bool" where
  "vring_inv v fs cs r \<longleftrightarrow>
     (\<exists>k \<le> 16. v_size v = 2 ^ k) \<and>
     length (v_descs v) = v_size v \<and>
     length (v_completions v) = v_size v \<and>
     length (v_avail_ring v) = v_size v \<and>
     length (v_used_elements v) = v_size v \<and>
     free_list (v_descs v) (v_free_desc v) fs \<and>
     (\<forall>c \<in> set cs. is_chain (v_descs v) c) \<and>
     distinct (fs @ concat cs) \<and>
     set (fs @ concat cs) = {..<v_size v} \<and>
     v_available_descriptors v + r = length fs"

text \<open>
  The used elements that \<open>do_complete\<close> has not consumed yet, from \<open>_used._tail\<close> up to
  \<open>used.idx\<close>. They report the chains \<open>ps\<close> when their ids are the heads of \<open>ps\<close>, in
  order, and no chain is reported twice.
\<close>

fun used_window :: "vring \<Rightarrow> 16 word \<Rightarrow> nat \<Rightarrow> used_elem list" where
  "used_window v t 0 = []"
| "used_window v t (Suc n) =
     (v_used_elements v ! masked v (unat t)) # used_window v (t + 1) n"

definition pending :: "vring \<Rightarrow> used_elem list" where
  "pending v = used_window v (v_used_tail v) (unat (v_used_idx v - v_used_tail v))"

definition reports :: "vring \<Rightarrow> nat list list \<Rightarrow> bool" where
  "reports v ps \<longleftrightarrow> map (\<lambda>ue. unat (ue_id ue)) (pending v) = map hd ps \<and> distinct ps"

subsection \<open>The host and the reachable states\<close>

text \<open>
  The host's side of the shared memory: it writes the used ring (flags, index,
  elements) and \<open>avail_event\<close>.
\<close>

definition host_write ::
  "vring \<Rightarrow> 16 word \<Rightarrow> 16 word \<Rightarrow> used_elem list \<Rightarrow> 16 word \<Rightarrow> vring" where
  "host_write v flags idx elements avail_event =
     v\<lparr>v_used_flags := flags, v_used_idx := idx, v_used_elements := elements,
       v_avail_event := avail_event\<rparr>"

text \<open>
  The states of a ring between the steps of the driver and of the host, with the free
  list \<open>fs\<close>, the in-flight chains \<open>cs\<close>, those of them the host has reported and
  \<open>do_complete\<close> has not reclaimed yet (\<open>ps\<close>), and the number \<open>r\<close> of permits taken and
  not yet used. The steps: the ring is constructed over a zeroed used ring; a
  producer waits for permits; it posts a chain of at most that many buffers; the new
  \<open>avail.idx\<close> is stored and \<open>kick\<close> runs; the host writes its fields, reporting
  further in-flight chains, each once; \<open>do_complete\<close> runs.
\<close>

inductive reach :: "vring \<Rightarrow> nat list \<Rightarrow> nat list list \<Rightarrow> nat list list \<Rightarrow> nat \<Rightarrow> bool" where
  constructed:
    "\<lbrakk>\<exists>k \<le> 16. v_size m = 2 ^ k; length (v_descs m) = v_size m;
      length (v_avail_ring m) = v_size m; length (v_used_elements m) = v_size m;
      v_used_idx m = 0; vring_ctor m = Inr v\<rbrakk>
     \<Longrightarrow> reach v (rev [0..<v_size m]) [] [] 0"
| waited:
    "\<lbrakk>reach v fs cs ps r; semaphore_wait v n = Proceeds v'\<rbrakk>
     \<Longrightarrow> reach v' fs cs ps (r + n)"
| posted:
    "\<lbrakk>reach v fs cs ps r; bc \<noteq> []; length bc \<le> r; post_chain v bc = Inr v'\<rbrakk>
     \<Longrightarrow> reach v' (drop (length bc) fs) (cs @ [rev (take (length bc) fs)]) ps (r - length bc)"
| published:
    "reach v fs cs ps r \<Longrightarrow> reach (kick (v\<lparr>v_avail_idx := v_avail_head v\<rparr>)) fs cs ps r"
| reported:
    "\<lbrakk>reach v fs cs ps r; length elements = v_size v;
      v1 = host_write v flags idx elements avail_event;
      reports v1 (ps @ qs); set qs \<subseteq> set cs\<rbrakk>
     \<Longrightarrow> reach v1 fs cs (ps @ qs) r"
| completed:
    "\<lbrakk>reach v fs cs ps r; v_size v \<le> fuel; do_complete fuel v = Some (Inr v')\<rbrakk>
     \<Longrightarrow> reach v' (rev (concat ps) @ fs) (fold remove1 ps cs) [] r"

subsection \<open>Concrete states\<close>

text \<open>A ring of four descriptors before \<open>vring::setup\<close>, and variations of it.\<close>

definition ring0 :: vring where
  "ring0 = \<lparr>v_size = 4, v_event_index = False,
     v_descs = replicate 4 \<lparr>d_paddr = 0, d_len = 0, d_has_next = False, d_writeable = False,
                             d_indirect = False, d_next = 0\<rparr>,
     v_avail_flags = 0, v_avail_idx = 0, v_avail_ring = replicate 4 0, v_used_event = 0,
     v_used_flags = 0, v_used_idx = 0,
     v_used_elements = replicate 4 \<lparr>ue_id = 0, ue_len = 0\<rparr>, v_avail_event = 0,
     v_avail_head = 0, v_avail_added_since_kick = 0, v_used_tail = 0,
     v_completions = replicate 4 Unattached, v_fulfilled = [],
     v_available_descriptors = 0, v_free_desc = - 1, v_kicks = 0\<rparr>"

text \<open>
  Event index negotiated; the host asked to be woken when \<open>avail.idx\<close> passes 65535,
  and 32767 chains were added since the last kick.
\<close>

definition kick_defensive :: vring where
  "kick_defensive = ring0\<lparr>v_event_index := True, v_avail_idx := 32767, v_avail_event := 65535,
                           v_avail_added_since_kick := 32767\<rparr>"

text \<open>Event index negotiated; the host has seen \<open>avail.idx = 5\<close> and one chain was added.\<close>

definition kick_seen :: vring where
  "kick_seen = ring0\<lparr>v_event_index := True, v_avail_idx := 5, v_avail_event := 5,
                      v_avail_added_since_kick := 1\<rparr>"

text \<open>No event index; the host set \<open>NO_NOTIFY\<close>, and 40000 chains were added.\<close>

definition kick_muted :: vring where
  "kick_muted = ring0\<lparr>v_used_flags := 1, v_avail_added_since_kick := 40000\<rparr>"

text \<open>No event index, \<open>NO_NOTIFY\<close> clear, one chain added.\<close>

definition kick_plain :: vring where
  "kick_plain = ring0\<lparr>v_avail_added_since_kick := 1\<rparr>"

text \<open>Event index negotiated, 40000 chains added, the host far ahead.\<close>

definition kick_many :: vring where
  "kick_many = ring0\<lparr>v_event_index := True, v_avail_idx := 40000, v_avail_event := 39999,
                      v_avail_added_since_kick := 40000\<rparr>"

text \<open>An idle receive queue.\<close>

definition rxq0 :: rxq where
  "rxq0 = \<lparr>rq_remaining_buffers = 0, rq_fragments = [], rq_deleters = [], rq_rx_ready = []\<rparr>"

text \<open>A packet of one 64-byte fragment.\<close>

definition packet64 :: packet where
  "packet64 = \<lparr>p_fragments = [\<lparr>f_base = 8192, f_size = 64\<rparr>], p_deleters = []\<rparr>"

text \<open>
  The ring of four descriptors through one transmission: as constructed; after
  \<open>txq::post\<close> of a packet of one 64-byte fragment (two descriptors in flight); after
  the host has reported that chain; after \<open>do_complete\<close> has reclaimed it.
\<close>

definition desc_free :: "16 word \<Rightarrow> desc" where
  "desc_free nxt = \<lparr>d_paddr = 0, d_len = 0, d_has_next = False, d_writeable = False,
                    d_indirect = False, d_next = nxt\<rparr>"

definition ring_ready :: vring where
  "ring_ready = ring0\<lparr>v_descs := [desc_free 65535, desc_free 0, desc_free 1, desc_free 2],
                       v_available_descriptors := 4, v_free_desc := 3\<rparr>"

definition packet64_sent :: packet where
  "packet64_sent = \<lparr>p_fragments = [\<lparr>f_base = 4096, f_size = 10\<rparr>, \<lparr>f_base = 8192, f_size = 64\<rparr>],
                    p_deleters = []\<rparr>"

definition ring_tx_posted :: vring where
  "ring_tx_posted = ring0\<lparr>
     v_descs := [desc_free 65535, desc_free 0,
                 \<lparr>d_paddr = 4096, d_len = 10, d_has_next = True, d_writeable = False,
                  d_indirect = False, d_next = 3\<rparr>,
                 \<lparr>d_paddr = 8192, d_len = 64, d_has_next = False, d_writeable = False,
                  d_indirect = False, d_next = 0\<rparr>],
     v_avail_idx := 1, v_avail_ring := [2, 0, 0, 0], v_avail_head := 1,
     v_completions := [Unattached, Unattached, Tx_done packet64_sent, Unattached],
     v_available_descriptors := 2, v_free_desc := 1, v_kicks := 1\<rparr>"

definition ring_tx_reported :: vring where
  "ring_tx_reported =
     host_write ring_tx_posted 0 1
       [\<lparr>ue_id = 2, ue_len = 0\<rparr>, \<lparr>ue_id = 0, ue_len = 0\<rparr>,
        \<lparr>ue_id = 0, ue_len = 0\<rparr>, \<lparr>ue_id = 0, ue_len = 0\<rparr>] 0"

definition ring_tx_done :: vring where
  "ring_tx_done = ring_tx_reported\<lparr>
     v_descs := [desc_free 65535, desc_free 0,
                 \<lparr>d_paddr = 4096, d_len = 10, d_has_next = True, d_writeable = False,
                  d_indirect = False, d_next = 1\<rparr>,
                 \<lparr>d_paddr = 8192, d_len = 64, d_has_next = False, d_writeable = False,
                  d_indirect = False, d_next = 2\<rparr>],
     v_used_tail := 1, v_fulfilled := [(Tx_done packet64_sent, 0)],
     v_available_descriptors := 4, v_free_desc := 3\<rparr>"

text \<open>
  The host has reported the chain, but the descriptor table says that descriptor 3
  continues at descriptor 2, which continues at 3.
\<close>

definition ring_cycle :: vring where
  "ring_cycle = ring_tx_reported\<lparr>
     v_descs := [desc_free 65535, desc_free 0,
                 \<lparr>d_paddr = 4096, d_len = 10, d_has_next = True, d_writeable = False,
                  d_indirect = False, d_next = 3\<rparr>,
                 \<lparr>d_paddr = 8192, d_len = 64, d_has_next = True, d_writeable = False,
                  d_indirect = False, d_next = 2\<rparr>]\<rparr>"

text \<open>The host reports the id 4 on a ring of four descriptors.\<close>

definition ring_bad_id :: vring where
  "ring_bad_id =
     host_write ring_tx_posted 0 1
       [\<lparr>ue_id = 4, ue_len = 0\<rparr>, \<lparr>ue_id = 0, ue_len = 0\<rparr>,
        \<lparr>ue_id = 0, ue_len = 0\<rparr>, \<lparr>ue_id = 0, ue_len = 0\<rparr>] 0"

text \<open>
  Two chains given to one \<open>vring::post\<close>, a packet with its header and a receive buffer,
  and the constructed ring of four descriptors after three permits were taken and the
  two chains were written (before \<open>avail.idx\<close> is stored).
\<close>

definition two_chains :: "buffer list list" where
  "two_chains =
     [[\<lparr>b_addr = 4096, b_len = 10, b_completed = Tx_done packet64_sent, b_writeable = False\<rparr>,
       \<lparr>b_addr = 8192, b_len = 64, b_completed = Unattached, b_writeable = False\<rparr>],
      [\<lparr>b_addr = 12288, b_len = 4096, b_completed = Rx_done 12288, b_writeable = True\<rparr>]]"

definition ring_two_posted :: vring where
  "ring_two_posted = ring0\<lparr>
     v_descs := [desc_free 65535,
                 \<lparr>d_paddr = 12288, d_len = 4096, d_has_next = False, d_writeable = True,
                  d_indirect = False, d_next = 0\<rparr>,
                 \<lparr>d_paddr = 4096, d_len = 10, d_has_next = True, d_writeable = False,
                  d_indirect = False, d_next = 3\<rparr>,
                 \<lparr>d_paddr = 8192, d_len = 64, d_has_next = False, d_writeable = False,
                  d_indirect = False, d_next = 0\<rparr>],
     v_avail_ring := [2, 1, 0, 0], v_avail_head := 2, v_avail_added_since_kick := 2,
     v_completions := [Unattached, Rx_done 12288, Tx_done packet64_sent, Unattached],
     v_available_descriptors := 1, v_free_desc := 0\<rparr>"

section \<open>Properties\<close>

subsection \<open>The ring-size getter\<close>

text \<open>
  C9: \<open>ring_size()\<close> returns the value of the \<open>virtio-ring-size\<close> option only when the
  \<open>event-index\<close> option is present in the options map, and 256 otherwise; it does not
  honour \<open>virtio-ring-size\<close> unconditionally (a map holding \<open>virtio-ring-size = 512\<close>
  and no \<open>event-index\<close> gives 256).
\<close>

theorem ring_size_reads_option_only_with_event_index:
  "(opts ''event-index'' = None \<longrightarrow> ring_size opts = Inr 256) \<and>
   (opts ''event-index'' \<noteq> None \<longrightarrow> opts ''virtio-ring-size'' = Some (Unsigned_value n) \<longrightarrow>
      ring_size opts = Inr (ucast n)) \<and>
   ring_size [''virtio-ring-size'' \<mapsto> Unsigned_value 512] = Inr 256"
  by (auto simp: ring_size_def count_def as_unsigned_def)

theorem ring_size_reads_option_only_with_event_index_witness:
  "ring_size [''virtio-ring-size'' \<mapsto> Unsigned_value 1024] = Inr 256 \<and>
   ring_size [''virtio-ring-size'' \<mapsto> Unsigned_value 1024,
              ''event-index'' \<mapsto> String_value ''off''] = Inr 1024"
  using ring_size_reads_option_only_with_event_index
          [of "[''virtio-ring-size'' \<mapsto> Unsigned_value 1024]" 1024]
        ring_size_reads_option_only_with_event_index
          [of "[''virtio-ring-size'' \<mapsto> Unsigned_value 1024,
                ''event-index'' \<mapsto> String_value ''off'']" 1024]
  by simp

subsection \<open>Words\<close>

lemma unat_of_nat16: "n < 65536 \<Longrightarrow> unat (of_nat n :: 16 word) = n"
  by (simp add: unat_of_nat)

lemma unat_of_diff16:
  assumes "a + b \<le> m" and "m < 65536"
  shows "unat (of_nat m - of_nat a - of_nat b :: 16 word) = m - a - b"
proof -
  have "(of_nat m - of_nat a - of_nat b :: 16 word) = of_nat (m - a - b)"
    using assms(1) by (simp add: of_nat_diff)
  moreover have "m - a - b < 65536"
    using assms(2) by simp
  ultimately show ?thesis
    by (simp add: unat_of_nat16)
qed

lemma half16: "(NOT 0 :: 16 word) div 2 = 32767"
  by simp

lemma unat_ucast_16_32: "unat (ucast (w :: 16 word) :: 32 word) = unat w"
proof -
  have "unat w < 2 ^ 16"
    using unsigned_less [of w] by simp
  then have "unat w < 2 ^ 32"
    by simp
  then show ?thesis
    by (simp add: unsigned_ucast_eq take_bit_nat_eq_self)
qed

subsection \<open>The transmit header\<close>

text \<open>
  C1, as the code has it. With \<open>tx_csum_offload\<close> enabled, a TCP packet gets
  \<open>needs_csum = 1\<close>, \<open>csum_start = eth_hdr_len + ip_hdr_len\<close>, \<open>csum_offset = 16\<close>, and,
  if \<open>tx_tso\<close> is enabled and the packet is longer than \<open>mtu + eth_hdr_len\<close>,
  \<open>gso_type = tcpv4\<close>, \<open>hdr_len = eth_hdr_len + ip_hdr_len + tcp_hdr_len\<close> and
  \<open>gso_size = mtu - ip_hdr_len - tcp_hdr_len\<close>; a UDP packet gets the same with
  \<open>csum_offset = 6\<close>, \<open>gso_type = udp\<close> and the UDP header length; with
  \<open>tx_csum_offload\<close> disabled every field is zero. The fields are 16-bit: the equations
  hold modulo \<open>2 ^ 16\<close>, and as numbers whenever the values fit. For
  \<open>mtu = 1500\<close>, \<open>eth = 14\<close>, \<open>ip = 20\<close>, \<open>tcp = 20\<close> this gives \<open>csum_start = 34\<close>,
  \<open>hdr_len = 54\<close> and \<open>gso_size = 1460\<close> (not 1448).
\<close>

theorem txq_vhdr_offload_fields:
  "(let h = txq_vhdr eth hw oi p_len; ip = ip_hdr_len oi; m = mtu hw in
    (tx_csum_offload hw \<and> protocol oi = tcp \<longrightarrow>
       needs_csum h = 1 \<and> csum_offset h = 16 \<and>
       csum_start h = of_nat (eth + ip) \<and>
       (eth + ip < 65536 \<longrightarrow> unat (csum_start h) = eth + ip) \<and>
       (tx_tso hw \<and> p_len > m + eth \<longrightarrow>
          gso_type h = gso_tcpv4 \<and>
          hdr_len h = of_nat (eth + ip + tcp_hdr_len oi) \<and>
          (eth + ip + tcp_hdr_len oi < 65536 \<longrightarrow>
             unat (hdr_len h) = eth + ip + tcp_hdr_len oi) \<and>
          gso_size h = of_nat m - of_nat ip - of_nat (tcp_hdr_len oi) \<and>
          (ip + tcp_hdr_len oi \<le> m \<and> m < 65536 \<longrightarrow>
             unat (gso_size h) = m - ip - tcp_hdr_len oi))) \<and>
    (tx_csum_offload hw \<and> protocol oi = udp \<longrightarrow>
       needs_csum h = 1 \<and> csum_offset h = 6 \<and>
       csum_start h = of_nat (eth + ip) \<and>
       (eth + ip < 65536 \<longrightarrow> unat (csum_start h) = eth + ip) \<and>
       (tx_ufo hw \<and> p_len > m + eth \<longrightarrow>
          gso_type h = gso_udp \<and>
          hdr_len h = of_nat (eth + ip + udp_hdr_len oi) \<and>
          (eth + ip + udp_hdr_len oi < 65536 \<longrightarrow>
             unat (hdr_len h) = eth + ip + udp_hdr_len oi) \<and>
          gso_size h = of_nat m - of_nat ip - of_nat (udp_hdr_len oi) \<and>
          (ip + udp_hdr_len oi \<le> m \<and> m < 65536 \<longrightarrow>
             unat (gso_size h) = m - ip - udp_hdr_len oi))) \<and>
    (\<not> tx_csum_offload hw \<longrightarrow> h = vhdr_zero))"
  unfolding Let_def
  apply (intro conjI impI)
  apply (simp_all add: txq_vhdr_def Let_def unat_of_nat16 unat_of_diff16
                  del: of_nat_add of_nat_diff)
  done

theorem txq_vhdr_offload_fields_witness:
  "unat (csum_start (txq_vhdr 14 hw_offload oi_tcp 5000)) = 34 \<and>
   csum_offset (txq_vhdr 14 hw_offload oi_tcp 5000) = 16 \<and>
   gso_type (txq_vhdr 14 hw_offload oi_tcp 5000) = gso_tcpv4 \<and>
   unat (hdr_len (txq_vhdr 14 hw_offload oi_tcp 5000)) = 54 \<and>
   unat (gso_size (txq_vhdr 14 hw_offload oi_tcp 5000)) = 1460 \<and>
   unat (csum_start (txq_vhdr 14 hw_offload oi_udp 3000)) = 34 \<and>
   csum_offset (txq_vhdr 14 hw_offload oi_udp 3000) = 6 \<and>
   gso_type (txq_vhdr 14 hw_offload oi_udp 3000) = gso_udp \<and>
   unat (hdr_len (txq_vhdr 14 hw_offload oi_udp 3000)) = 42 \<and>
   unat (gso_size (txq_vhdr 14 hw_offload oi_udp 3000)) = 1472 \<and>
   txq_vhdr 14 (hw_offload\<lparr>tx_csum_offload := False\<rparr>) oi_tcp 5000 = vhdr_zero"
  using txq_vhdr_offload_fields [of 14 hw_offload oi_tcp 5000]
        txq_vhdr_offload_fields [of 14 hw_offload oi_udp 3000]
        txq_vhdr_offload_fields [of 14 "hw_offload\<lparr>tx_csum_offload := False\<rparr>" oi_tcp 5000]
  by (simp add: Let_def hw_offload_def oi_tcp_def oi_udp_def)

text \<open>
  The numbers of C1 as stated do not come out: for \<open>mtu = 1500\<close>, \<open>ip = 20\<close>,
  \<open>tcp = 20\<close> the code stores \<open>gso_size = 1460\<close>, not 1448.
\<close>

theorem txq_vhdr_gso_size_counterexample:
  "csum_start (txq_vhdr 14 hw_offload oi_tcp 5000) = 34 \<and>
   hdr_len (txq_vhdr 14 hw_offload oi_tcp 5000) = 54 \<and>
   gso_size (txq_vhdr 14 hw_offload oi_tcp 5000) = 1460 \<and>
   gso_size (txq_vhdr 14 hw_offload oi_tcp 5000) \<noteq> 1448"
  by (simp add: txq_vhdr_def vhdr_zero_def Let_def hw_offload_def oi_tcp_def)

subsection \<open>The kick policy\<close>

text \<open>
  C3 as stated fails: with the event index negotiated and
  \<open>(uint16)(avail_idx - avail_event - 1) \<ge> chains_added_since_last_kick\<close>, \<open>kick\<close>
  still signals once 32767 chains have been added since the last kick.
\<close>

theorem kick_despite_avail_event_counterexample:
  "v_event_index kick_defensive \<and>
   v_avail_idx kick_defensive - v_avail_event kick_defensive - 1
     \<ge> v_avail_added_since_kick kick_defensive \<and>
   v_kicks (kick kick_defensive) = v_kicks kick_defensive + 1"
  by (simp add: kick_defensive_def ring0_def kick_def Let_def)

text \<open>
  C3, amended: with the event index negotiated, \<open>kick\<close> does not signal when
  \<open>(uint16)(avail_idx - avail_event - 1) \<ge> chains_added_since_last_kick\<close> and fewer than
  32767 chains were added since the last kick; without the event index, it does not
  signal while \<open>NO_NOTIFY\<close> is set in the used ring. In both cases the state is left
  as it was.
\<close>

theorem kick_suppressed:
  "(v_event_index v \<and>
    v_avail_idx v - v_avail_event v - 1 \<ge> v_avail_added_since_kick v \<and>
    v_avail_added_since_kick v < 32767 \<longrightarrow> kick v = v) \<and>
   (\<not> v_event_index v \<and> notifications_disabled v \<longrightarrow> kick v = v)"
  by (auto simp: kick_def Let_def half16)

theorem kick_suppressed_witness:
  "kick kick_seen = kick_seen \<and> kick kick_muted = kick_muted"
  using kick_suppressed [of kick_seen] kick_suppressed [of kick_muted]
  by (simp add: kick_seen_def kick_muted_def ring0_def notifications_disabled_def
      VRING_USED_F_NO_NOTIFY_def)

text \<open>
  C4 as stated fails: without the event index and with \<open>NO_NOTIFY\<close> set, \<open>kick\<close>
  returns before the defensive test, so no kick is emitted although 40000 chains were
  added since the last one.
\<close>

theorem kick_muted_counterexample:
  "\<not> v_event_index kick_muted \<and> v_avail_added_since_kick kick_muted > 32767 \<and>
   v_kicks (kick kick_muted) = v_kicks kick_muted"
  by (simp add: kick_muted_def ring0_def kick_def Let_def notifications_disabled_def
      VRING_USED_F_NO_NOTIFY_def)

text \<open>
  C4, amended: with the event index negotiated, \<open>kick\<close> signals whenever more than
  32767 chains were added since the last kick; without it, \<open>kick\<close> signals exactly
  when \<open>NO_NOTIFY\<close> is clear, whatever the count; and after any kick the counter of
  chains added is zero.
\<close>

theorem kick_defensive_and_reset:
  "(v_event_index v \<and> v_avail_added_since_kick v > 32767 \<longrightarrow>
      v_kicks (kick v) = v_kicks v + 1) \<and>
   (\<not> v_event_index v \<longrightarrow>
      (if notifications_disabled v then kick v = v else v_kicks (kick v) = v_kicks v + 1)) \<and>
   (v_kicks (kick v) \<noteq> v_kicks v \<longrightarrow> v_avail_added_since_kick (kick v) = 0)"
  by (auto simp: kick_def Let_def half16)

theorem kick_defensive_and_reset_witness:
  "v_kicks (kick kick_many) = 1 \<and> v_avail_added_since_kick (kick kick_many) = 0 \<and>
   v_kicks (kick kick_plain) = 1 \<and> v_avail_added_since_kick (kick kick_plain) = 0 \<and>
   kick kick_muted = kick_muted"
  using kick_defensive_and_reset [of kick_many] kick_defensive_and_reset [of kick_plain]
        kick_defensive_and_reset [of kick_muted]
  by (simp add: kick_many_def kick_plain_def kick_muted_def ring0_def
      notifications_disabled_def VRING_USED_F_NO_NOTIFY_def)

subsection \<open>Receive reassembly\<close>

lemma rx_completed_middle:
  assumes "1 < unat (rq_remaining_buffers q)"
  shows "rx_completed hl q buf nb len =
           Inr (q\<lparr>rq_fragments := rq_fragments q @ [\<lparr>f_base = buf, f_size = len\<rparr>],
                  rq_deleters := rq_deleters q @ [buf],
                  rq_remaining_buffers := rq_remaining_buffers q - 1\<rparr>)"
proof -
  have nz: "rq_remaining_buffers q \<noteq> 0"
    using assms by (auto simp: unat_eq_0)
  have "unat (rq_remaining_buffers q - 1) = unat (rq_remaining_buffers q) - 1"
    using nz by (simp add: unat_minus_one)
  then have "unat (rq_remaining_buffers q - 1) \<noteq> 0"
    using assms by simp
  then have "rq_remaining_buffers q - 1 \<noteq> 0"
    by (auto simp: unat_eq_0)
  then show ?thesis
    using nz by (simp add: rx_completed_def Let_def)
qed

lemma rx_completed_last:
  assumes "unat (rq_remaining_buffers q) = 1"
  shows "rx_completed hl q buf nb len =
           Inr (q\<lparr>rq_fragments := rq_fragments q @ [\<lparr>f_base = buf, f_size = len\<rparr>],
                  rq_deleters := [],
                  rq_remaining_buffers := 0,
                  rq_rx_ready := rq_rx_ready q @
                    [\<lparr>p_fragments = rq_fragments q @ [\<lparr>f_base = buf, f_size = len\<rparr>],
                      p_deleters = rq_deleters q @ [buf]\<rparr>]\<rparr>)"
proof -
  have "rq_remaining_buffers q = 1"
    using assms by (simp add: word_unat_eq_iff)
  then show ?thesis
    by (simp add: rx_completed_def Let_def)
qed

text \<open>While more buffers are awaited than complete, fragments pile up and nothing is delivered.\<close>

lemma rx_completions_middle:
  "length cs < unat (rq_remaining_buffers q) \<Longrightarrow>
   rx_completions hl q cs =
     Inr (q\<lparr>rq_fragments := rq_fragments q @ map frag_of cs,
            rq_deleters := rq_deleters q @ map fst cs,
            rq_remaining_buffers := rq_remaining_buffers q - of_nat (length cs)\<rparr>)"
proof (induction cs arbitrary: q)
  case Nil
  then show ?case by simp
next
  case (Cons c cs)
  obtain buf nb len where c: "c = (buf, nb, len)"
    by (cases c) auto
  have big: "1 < unat (rq_remaining_buffers q)"
    using Cons.prems by simp
  define q1 where "q1 = q\<lparr>rq_fragments := rq_fragments q @ [\<lparr>f_base = buf, f_size = len\<rparr>],
                  rq_deleters := rq_deleters q @ [buf],
                  rq_remaining_buffers := rq_remaining_buffers q - 1\<rparr>"
  have step: "rx_completed hl q buf nb len = Inr q1"
    unfolding q1_def by (rule rx_completed_middle [OF big])
  have nz: "rq_remaining_buffers q \<noteq> 0"
    using big by (auto simp: unat_eq_0)
  have "unat (rq_remaining_buffers q1) = unat (rq_remaining_buffers q) - 1"
    using nz by (simp add: q1_def unat_minus_one)
  then have "length cs < unat (rq_remaining_buffers q1)"
    using Cons.prems by simp
  from Cons.IH [OF this] show ?case
    by (simp add: c step q1_def frag_of_def)
qed

text \<open>The buffers that complete a packet: the last one delivers it.\<close>

lemma rx_completions_finish:
  "cs \<noteq> [] \<Longrightarrow> unat (rq_remaining_buffers q) = length cs \<Longrightarrow>
   rx_completions hl q cs =
     Inr (q\<lparr>rq_fragments := rq_fragments q @ map frag_of cs,
            rq_deleters := [],
            rq_remaining_buffers := 0,
            rq_rx_ready := rq_rx_ready q @
              [\<lparr>p_fragments = rq_fragments q @ map frag_of cs,
                p_deleters = rq_deleters q @ map fst cs\<rparr>]\<rparr>)"
proof (induction cs arbitrary: q)
  case Nil
  then show ?case by simp
next
  case (Cons c cs)
  obtain buf nb len where c: "c = (buf, nb, len)"
    by (cases c) auto
  show ?case
  proof (cases "cs = []")
    case True
    then have "unat (rq_remaining_buffers q) = 1"
      using Cons.prems by simp
    from rx_completed_last [OF this, of hl buf nb len] show ?thesis
      using True by (simp add: c frag_of_def)
  next
    case False
    then have big: "1 < unat (rq_remaining_buffers q)"
      using Cons.prems by (cases cs) auto
    define q1 where "q1 = q\<lparr>rq_fragments := rq_fragments q @ [\<lparr>f_base = buf, f_size = len\<rparr>],
                  rq_deleters := rq_deleters q @ [buf],
                  rq_remaining_buffers := rq_remaining_buffers q - 1\<rparr>"
    have step: "rx_completed hl q buf nb len = Inr q1"
      unfolding q1_def by (rule rx_completed_middle [OF big])
    have nz: "rq_remaining_buffers q \<noteq> 0"
      using big by (auto simp: unat_eq_0)
    have "unat (rq_remaining_buffers q1) = unat (rq_remaining_buffers q) - 1"
      using nz by (simp add: q1_def unat_minus_one)
    then have "unat (rq_remaining_buffers q1) = length cs"
      using Cons.prems by simp
    from Cons.IH [OF False this] show ?thesis
      by (simp add: c step q1_def frag_of_def)
  qed
qed

text \<open>The first buffer of a packet that spans more than one buffer.\<close>

lemma rx_completed_first:
  assumes first: "rq_remaining_buffers q = 0" and more: "1 < unat nb"
  shows "rx_completed hl q buf nb len =
           Inr (q\<lparr>rq_remaining_buffers := ucast nb - 1,
                  rq_fragments := [\<lparr>f_base = buf + hl, f_size = len - hl\<rparr>],
                  rq_deleters := [buf]\<rparr>)"
    and "unat (ucast nb - 1 :: 32 word) = unat nb - 1"
proof -
  have nb1: "1 \<le> nb"
    using more by (simp add: word_le_nat_alt)
  have un: "unat (ucast nb :: 32 word) = unat nb"
    by (rule unat_ucast_16_32)
  have nz: "(ucast nb :: 32 word) \<noteq> 0"
  proof
    assume "ucast nb = (0 :: 32 word)"
    then have "unat (ucast nb :: 32 word) = 0"
      by simp
    with un more show False
      by simp
  qed
  show un1: "unat (ucast nb - 1 :: 32 word) = unat nb - 1"
    using nz by (simp add: unat_minus_one unat_ucast_16_32)
  then have "(ucast nb - 1 :: 32 word) \<noteq> 0"
    using more by (auto simp: unat_eq_0)
  then show "rx_completed hl q buf nb len =
           Inr (q\<lparr>rq_remaining_buffers := ucast nb - 1,
                  rq_fragments := [\<lparr>f_base = buf + hl, f_size = len - hl\<rparr>],
                  rq_deleters := [buf]\<rparr>)"
    using first nb1 by (simp add: rx_completed_def Let_def)
qed

text \<open>
  C6: when no packet is being assembled and the header of the first completed
  buffer announces \<open>num_buffers = 1 + length rest\<close>, that buffer gives the fragment
  \<open>(buf + header_len, len - header_len)\<close> and each later buffer a fragment of its full
  completed length; no packet is delivered before the last of them completes; the
  last one appends to the pending deliveries a single packet with all the fragments in
  the order of completion, whose deleter owns exactly the buffers of the packet. The
  deliveries are a queue that only grows at its end, so packets leave in the order in
  which their buffers completed.
\<close>

theorem rx_reassembly_in_order:
  assumes first: "rq_remaining_buffers q = 0"
    and count: "unat nb = Suc (length rest)"
  shows "rx_completions hl q ((buf, nb, len) # rest) =
           Inr (q\<lparr>rq_remaining_buffers := 0,
                  rq_fragments := \<lparr>f_base = buf + hl, f_size = len - hl\<rparr> # map frag_of rest,
                  rq_deleters := [],
                  rq_rx_ready := rq_rx_ready q @
                    [\<lparr>p_fragments = \<lparr>f_base = buf + hl, f_size = len - hl\<rparr> # map frag_of rest,
                      p_deleters = buf # map fst rest\<rparr>]\<rparr>) \<and>
         (\<forall>k < length rest.
            \<exists>q'. rx_completions hl q ((buf, nb, len) # take k rest) = Inr q' \<and>
                 rq_rx_ready q' = rq_rx_ready q \<and> rq_remaining_buffers q' \<noteq> 0)"
proof (cases "rest = []")
  case True
  have "unat (ucast nb :: 32 word) = 1"
    using count True by (simp add: unat_ucast_16_32)
  then have one: "ucast nb = (1 :: 32 word)"
    by (simp add: word_unat_eq_iff)
  have "1 \<le> nb"
    using count by (simp add: word_le_nat_alt)
  then show ?thesis
    using first one True by (simp add: rx_completed_def Let_def)
next
  case False
  then have more: "1 < unat nb"
    using count by (cases rest) auto
  define q1 where "q1 = q\<lparr>rq_remaining_buffers := ucast nb - 1,
       rq_fragments := [\<lparr>f_base = buf + hl, f_size = len - hl\<rparr>], rq_deleters := [buf]\<rparr>"
  have step1: "rx_completed hl q buf nb len = Inr q1"
    unfolding q1_def by (rule rx_completed_first(1) [OF first more])
  have left: "unat (rq_remaining_buffers q1) = length rest"
    using rx_completed_first(2) [OF first more] count by (simp add: q1_def)
  have whole: "rx_completions hl q ((buf, nb, len) # rest) =
           Inr (q\<lparr>rq_remaining_buffers := 0,
                  rq_fragments := \<lparr>f_base = buf + hl, f_size = len - hl\<rparr> # map frag_of rest,
                  rq_deleters := [],
                  rq_rx_ready := rq_rx_ready q @
                    [\<lparr>p_fragments = \<lparr>f_base = buf + hl, f_size = len - hl\<rparr> # map frag_of rest,
                      p_deleters = buf # map fst rest\<rparr>]\<rparr>)"
    using rx_completions_finish [OF False left, of hl] by (simp add: step1 q1_def)
  have part: "\<exists>q'. rx_completions hl q ((buf, nb, len) # take k rest) = Inr q' \<and>
                 rq_rx_ready q' = rq_rx_ready q \<and> rq_remaining_buffers q' \<noteq> 0"
    if k: "k < length rest" for k
  proof -
    have lt: "length (take k rest) < unat (rq_remaining_buffers q1)"
      using k left by simp
    have "unat (rq_remaining_buffers q1 - of_nat (length (take k rest))) \<noteq> 0"
    proof -
      have "unat (rq_remaining_buffers q1) < 2 ^ 32"
        using unsigned_less [of "rq_remaining_buffers q1"] by simp
      then have uk: "unat (of_nat k :: 32 word) = k"
        using k left by (simp add: unat_of_nat)
      then have "(of_nat k :: 32 word) \<le> rq_remaining_buffers q1"
        using k left by (simp add: word_le_nat_alt)
      then have "unat (rq_remaining_buffers q1 - of_nat k) =
                 unat (rq_remaining_buffers q1) - unat (of_nat k :: 32 word)"
        by (rule unat_sub)
      then show ?thesis
        using k left uk by (simp add: min_def)
    qed
    then have "rq_remaining_buffers q1 - of_nat (length (take k rest)) \<noteq> 0"
      by (auto simp: unat_eq_0)
    then show ?thesis
      using rx_completions_middle [OF lt, of hl] by (simp add: step1 q1_def)
  qed
  show ?thesis
    using whole part by blast
qed

theorem rx_reassembly_in_order_witness:
  "rx_completions 12 rxq0 [(4096, 3, 4096), (8192, 0, 4096), (12288, 0, 200)] =
     Inr (rxq0\<lparr>rq_fragments := [\<lparr>f_base = 4108, f_size = 4084\<rparr>,
                                 \<lparr>f_base = 8192, f_size = 4096\<rparr>,
                                 \<lparr>f_base = 12288, f_size = 200\<rparr>],
               rq_rx_ready := [\<lparr>p_fragments = [\<lparr>f_base = 4108, f_size = 4084\<rparr>,
                                                \<lparr>f_base = 8192, f_size = 4096\<rparr>,
                                                \<lparr>f_base = 12288, f_size = 200\<rparr>],
                                p_deleters = [4096, 8192, 12288]\<rparr>]\<rparr>)"
  using rx_reassembly_in_order
          [of rxq0 3 "[(8192, 0, 4096), (12288, 0, 200)]" 12 4096 4096]
  by (simp add: rxq0_def frag_of_def)

text \<open>
  C10: on the first buffer of a packet (\<open>remaining_buffers = 0\<close>) the only check is
  the assertion \<open>num_buffers \<ge> 1\<close>: the handler fails exactly when \<open>num_buffers = 0\<close>,
  whatever the completed length. Otherwise the fragment gets the length
  \<open>len - header_len\<close> computed in \<open>size_t\<close>, which for \<open>len < header_len\<close> is
  \<open>2 ^ 64 + len - header_len\<close>.
\<close>

theorem rx_first_buffer_length_unchecked:
  assumes "rq_remaining_buffers q = 0"
  shows "(rx_completed hl q buf nb len = Inl Assert_failed \<longleftrightarrow> nb = 0) \<and>
         (nb \<noteq> 0 \<longrightarrow>
            (\<exists>q'. rx_completed hl q buf nb len = Inr q' \<and>
                  rq_fragments q' = [\<lparr>f_base = buf + hl, f_size = len - hl\<rparr>] \<and>
                  (len < hl \<longrightarrow>
                     unat (f_size (hd (rq_fragments q'))) = 2 ^ 64 + unat len - unat hl)))"
proof -
  have ge: "1 \<le> nb \<longleftrightarrow> nb \<noteq> 0"
    by (simp add: word_le_nat_alt unat_eq_0 Suc_le_eq unat_gt_0)
  have wrap: "unat (len - hl) = 2 ^ 64 + unat len - unat hl" if "len < hl"
  proof -
    have "\<not> unat hl \<le> unat len"
      using that by (simp add: word_less_nat_alt)
    then show ?thesis
      by (simp add: unat_sub_if_size word_size)
  qed
  show ?thesis
    using assms wrap by (auto simp: rx_completed_def Let_def ge)
qed

theorem rx_first_buffer_length_unchecked_witness:
  "rx_completed 12 rxq0 4096 1 4 =
     Inr (rxq0\<lparr>rq_fragments := [\<lparr>f_base = 4108, f_size = 18446744073709551608\<rparr>],
               rq_rx_ready := [\<lparr>p_fragments = [\<lparr>f_base = 4108, f_size = 18446744073709551608\<rparr>],
                                p_deleters = [4096]\<rparr>]\<rparr>) \<and>
   rx_completed 12 rxq0 4096 0 4 = Inl Assert_failed"
  using rx_first_buffer_length_unchecked [of rxq0 12 4096 1 4]
        rx_first_buffer_length_unchecked [of rxq0 12 4096 0 4]
  by (simp add: rxq0_def rx_completed_def Let_def)

subsection \<open>The free list and the chains\<close>

lemma free_list_bound: "free_list ds p fs \<Longrightarrow> i \<in> set fs \<Longrightarrow> i < length ds"
  by (induction fs arbitrary: p) auto

lemma is_chain_bound: "is_chain ds c \<Longrightarrow> i \<in> set c \<Longrightarrow> i < length ds"
  by (induction ds c rule: is_chain.induct) auto

lemma free_list_frame:
  "free_list ds p fs \<Longrightarrow> i \<notin> set fs \<Longrightarrow> free_list (ds[i := d]) p fs"
  by (induction fs arbitrary: p) auto

lemma is_chain_frame:
  "is_chain ds c \<Longrightarrow> i \<notin> set c \<Longrightarrow> is_chain (ds[i := d]) c"
  by (induction ds c rule: is_chain.induct) auto

lemma uint_next_roundtrip:
  "i < 65536 \<Longrightarrow> uint (of_nat i :: 16 word) = int i"
  by (simp add: unsigned_of_nat take_bit_nat_eq_self)

lemma unat_next_roundtrip:
  "i < 65536 \<Longrightarrow> unat (of_nat i :: 16 word) = i"
  by (simp add: unat_of_nat)

text \<open>Freeing a descriptor that is not on the free list puts it in front.\<close>

lemma free_desc_free_list:
  assumes fl: "free_list (v_descs v) (v_free_desc v) fs"
    and i: "i < length (v_descs v)" "i \<notin> set fs" and sz: "length (v_descs v) \<le> 65536"
  defines "ds1 \<equiv> (v_descs v)[i := (v_descs v ! i)\<lparr>d_next := word_of_int (v_free_desc v)\<rparr>]"
  shows "free_desc v i = Inr (v\<lparr>v_descs := ds1, v_free_desc := int i,
                                 v_available_descriptors := v_available_descriptors v + 1\<rparr>)"
    and "free_list ds1 (int i) (i # fs)"
proof -
  have relink: "free_list (v_descs v) (uint (word_of_int (v_free_desc v) :: 16 word)) fs"
  proof (cases fs)
    case Nil
    then show ?thesis using fl by (auto simp: uint_word_of_int)
  next
    case (Cons j fs')
    then have "j < 65536" using fl sz by auto
    then show ?thesis
      using fl Cons by (simp add: uint_next_roundtrip)
  qed
  show "free_desc v i = Inr (v\<lparr>v_descs := ds1, v_free_desc := int i,
                                 v_available_descriptors := v_available_descriptors v + 1\<rparr>)"
    using i by (simp add: free_desc_def ds1_def)
  show "free_list ds1 (int i) (i # fs)"
    using i relink by (simp add: ds1_def free_list_frame)
qed

lemma is_chain_cong:
  "length ds' = length ds \<Longrightarrow> \<forall>j \<in> set c. ds' ! j = ds ! j \<Longrightarrow> is_chain ds' c = is_chain ds c"
  by (induction ds c rule: is_chain.induct) auto

text \<open>
  The walk over a well-formed chain frees its descriptors one by one, head first, and
  touches nothing but their \<open>next\<close> fields, the head of the free list and the semaphore.
\<close>

lemma free_chain_effect:
  assumes "is_chain (v_descs v) c"
    and "free_list (v_descs v) (v_free_desc v) fs"
    and "distinct (c @ fs)"
    and "length (v_descs v) \<le> 65536"
    and "length c \<le> fuel"
  shows "\<exists>ds'. free_chain fuel v (hd c) =
            Some (Inr (v\<lparr>v_descs := ds', v_free_desc := int (last c),
                         v_available_descriptors := v_available_descriptors v + length c\<rparr>)) \<and>
          free_list ds' (int (last c)) (rev c @ fs) \<and>
          length ds' = length (v_descs v) \<and>
          (\<forall>j. j \<notin> set c \<longrightarrow> ds' ! j = v_descs v ! j)"
  using assms
proof (induction c arbitrary: v fs fuel)
  case Nil
  then show ?case by simp
next
  case (Cons i c)
  obtain f where fuel: "fuel = Suc f"
    using Cons.prems(5) by (cases fuel) auto
  have i: "i < length (v_descs v)" "i \<notin> set fs"
    using Cons.prems(1,3) by (cases c; auto)+
  define ds1 where "ds1 = (v_descs v)[i := (v_descs v ! i)\<lparr>d_next := word_of_int (v_free_desc v)\<rparr>]"
  define v1 where "v1 = v\<lparr>v_descs := ds1, v_free_desc := int i,
                           v_available_descriptors := v_available_descriptors v + 1\<rparr>"
  have v1: "free_desc v i = Inr v1"
    unfolding v1_def ds1_def by (rule free_desc_free_list(1) [OF Cons.prems(2) i Cons.prems(4)])
  have fl1: "free_list (v_descs v1) (v_free_desc v1) (i # fs)"
    using free_desc_free_list(2) [OF Cons.prems(2) i Cons.prems(4)]
    by (simp add: v1_def ds1_def del: free_list.simps)
  show ?case
  proof (cases c)
    case Nil
    have "\<not> d_has_next (v_descs v ! i)"
      using Cons.prems(1) Nil by simp
    then have "free_chain fuel v (hd (i # c)) = Some (Inr v1)"
      using i v1 by (simp add: fuel Let_def)
    then show ?thesis
      using fl1 Nil by (intro exI [of _ ds1]) (auto simp: v1_def ds1_def)
  next
    case (Cons j js)
    have link: "d_has_next (v_descs v ! i)" "unat (d_next (v_descs v ! i)) = j"
      and rest: "is_chain (v_descs v) c"
      using Cons.prems(1) Cons by auto
    have notin: "i \<notin> set c"
      using Cons.prems(3) by simp
    have chain1: "is_chain (v_descs v1) c"
      using is_chain_frame [OF rest notin] by (simp add: v1_def ds1_def)
    have dist1: "distinct (c @ i # fs)"
      using Cons.prems(3) by auto
    have len1: "length (v_descs v1) \<le> 65536"
      using Cons.prems(4) by (simp add: v1_def ds1_def)
    have fuel1: "length c \<le> f"
      using Cons.prems(5) fuel by simp
    from Cons.IH [OF chain1 fl1 dist1 len1 fuel1]
    obtain ds' where run: "free_chain f v1 (hd c) =
            Some (Inr (v1\<lparr>v_descs := ds', v_free_desc := int (last c),
                         v_available_descriptors := v_available_descriptors v1 + length c\<rparr>))"
      and fl': "free_list ds' (int (last c)) (rev c @ i # fs)"
      and len': "length ds' = length (v_descs v1)"
      and frame': "\<forall>j. j \<notin> set c \<longrightarrow> ds' ! j = v_descs v1 ! j"
      by blast
    have step: "free_chain fuel v (hd (i # c)) = free_chain f v1 (hd c)"
      using i v1 link Cons by (simp add: fuel Let_def)
    have state: "v1\<lparr>v_descs := ds', v_free_desc := int (last c),
                         v_available_descriptors := v_available_descriptors v1 + length c\<rparr>
       = v\<lparr>v_descs := ds', v_free_desc := int (last (i # c)),
                         v_available_descriptors := v_available_descriptors v + length (i # c)\<rparr>"
      using Cons by (simp add: v1_def)
    have frame: "\<forall>j. j \<notin> set (i # c) \<longrightarrow> ds' ! j = v_descs v ! j"
      using frame' by (simp add: v1_def ds1_def)
    have last_eq: "last (i # c) = last c"
      using Cons by simp
    have result: "free_chain fuel v (hd (i # c)) =
            Some (Inr (v\<lparr>v_descs := ds', v_free_desc := int (last (i # c)),
                         v_available_descriptors := v_available_descriptors v + length (i # c)\<rparr>))"
      using step run state by simp
    have fl: "free_list ds' (int (last (i # c))) (rev (i # c) @ fs)"
      using fl' unfolding last_eq by simp
    have len: "length ds' = length (v_descs v)"
      using len' by (simp add: v1_def ds1_def)
    show ?thesis
      using result fl len frame by blast
  qed
qed

lemma pow2_le_65536: "k \<le> 16 \<Longrightarrow> (2::nat) ^ k \<le> 65536"
proof -
  assume "k \<le> 16"
  then have "(2::nat) ^ k \<le> 2 ^ 16"
    by (intro power_increasing) simp_all
  then show ?thesis
    by simp
qed

lemma vring_inv_size:
  assumes "vring_inv v fs cs r"
  shows "0 < v_size v" and "v_size v \<le> 65536" and "length (v_descs v) \<le> 65536"
  using assms by (auto simp: vring_inv_def pow2_le_65536)

lemma masked_mod: "v_size v = 2 ^ k \<Longrightarrow> masked v i = i mod v_size v"
proof -
  assume sz: "v_size v = 2 ^ k"
  have "i AND (2 ^ k - 1) = take_bit k i"
    by (simp add: take_bit_eq_mask mask_eq_exp_minus_1)
  then show ?thesis
    by (simp add: masked_def sz take_bit_eq_mod)
qed

lemma masked_less: "v_size v = 2 ^ k \<Longrightarrow> masked v i < v_size v"
  by (simp add: masked_mod)

lemma used_window_cong:
  "v_used_elements v' = v_used_elements v \<Longrightarrow> v_size v' = v_size v \<Longrightarrow>
   used_window v' t n = used_window v t n"
  by (induction n arbitrary: t) (auto simp: masked_def)

lemma remove1_split:
  "c \<in> set cs \<Longrightarrow> \<exists>xs ys. cs = xs @ c # ys \<and> remove1 c cs = xs @ ys"
proof -
  assume "c \<in> set cs"
  then obtain xs ys where "cs = xs @ c # ys" "c \<notin> set xs"
    by (auto dest: split_list_first)
  then show ?thesis
    by (auto simp: remove1_append)
qed

lemma chain_length_le:
  assumes "vring_inv v fs cs r" and "c \<in> set cs"
  shows "length c \<le> v_size v"
proof -
  obtain xs ys where cs: "cs = xs @ c # ys"
    using assms(2) by (auto dest: split_list)
  have "distinct c" and "set c \<subseteq> {..<v_size v}"
    using assms(1) by (auto simp: vring_inv_def cs)
  then have "card (set c) \<le> card {..<v_size v}"
    by (intro card_mono) auto
  then show ?thesis
    using \<open>distinct c\<close> by (simp add: distinct_card)
qed

text \<open>The invariant does not depend on the fields the completion path reads.\<close>

lemma vring_inv_frame:
  assumes "vring_inv v fs cs r"
    and "v_size v' = v_size v" "v_descs v' = v_descs v" "v_free_desc v' = v_free_desc v"
    and "v_available_descriptors v' = v_available_descriptors v"
    and "length (v_completions v') = length (v_completions v)"
    and "length (v_avail_ring v') = length (v_avail_ring v)"
    and "length (v_used_elements v') = length (v_used_elements v)"
  shows "vring_inv v' fs cs r"
  using assms by (simp add: vring_inv_def)

text \<open>Freeing an in-flight chain moves its descriptors to the free list.\<close>

lemma free_chain_inv:
  assumes inv: "vring_inv v fs cs r" and c: "c \<in> set cs" and fuel: "length c \<le> fuel"
  shows "\<exists>ds' p'. free_chain fuel v (hd c) =
            Some (Inr (v\<lparr>v_descs := ds', v_free_desc := p',
                         v_available_descriptors := v_available_descriptors v + length c\<rparr>)) \<and>
          vring_inv (v\<lparr>v_descs := ds', v_free_desc := p',
                       v_available_descriptors := v_available_descriptors v + length c\<rparr>)
                    (rev c @ fs) (remove1 c cs) r"
proof -
  obtain xs ys where cs: "cs = xs @ c # ys" and rm: "remove1 c cs = xs @ ys"
    using remove1_split [OF c] by blast
  have chain: "is_chain (v_descs v) c"
    using inv c by (simp add: vring_inv_def)
  have fl: "free_list (v_descs v) (v_free_desc v) fs"
    using inv by (simp add: vring_inv_def)
  have dist: "distinct (c @ fs)"
    using inv by (auto simp: vring_inv_def cs)
  have sz: "length (v_descs v) \<le> 65536"
    by (rule vring_inv_size(3) [OF inv])
  from free_chain_effect [OF chain fl dist sz fuel]
  obtain ds' where run: "free_chain fuel v (hd c) =
            Some (Inr (v\<lparr>v_descs := ds', v_free_desc := int (last c),
                         v_available_descriptors := v_available_descriptors v + length c\<rparr>))"
    and fl': "free_list ds' (int (last c)) (rev c @ fs)"
    and len': "length ds' = length (v_descs v)"
    and frame': "\<forall>j. j \<notin> set c \<longrightarrow> ds' ! j = v_descs v ! j"
    by blast
  have others: "is_chain ds' c2" if "c2 \<in> set (xs @ ys)" for c2
  proof -
    have c2: "is_chain (v_descs v) c2"
      using inv that by (auto simp: vring_inv_def cs)
    have "set c2 \<inter> set c = {}"
      using inv that by (auto simp: vring_inv_def cs)
    then have "\<forall>j \<in> set c2. ds' ! j = v_descs v ! j"
      using frame' by auto
    from is_chain_cong [OF len' this] c2 show ?thesis
      by simp
  qed
  have dist': "distinct ((rev c @ fs) @ concat (xs @ ys))"
    using inv by (auto simp: vring_inv_def cs)
  have set': "set ((rev c @ fs) @ concat (xs @ ys)) = {..<v_size v}"
    using inv by (auto simp: vring_inv_def cs)
  have "vring_inv (v\<lparr>v_descs := ds', v_free_desc := int (last c),
                       v_available_descriptors := v_available_descriptors v + length c\<rparr>)
                    (rev c @ fs) (remove1 c cs) r"
    unfolding vring_inv_def rm
    using inv fl' len' others dist' set' by (simp add: vring_inv_def)
  then show ?thesis
    using run by blast
qed

lemma complete_one_inv:
  assumes inv: "vring_inv v fs cs r" and c: "c \<in> set cs" and fuel: "length c \<le> fuel"
    and ue: "unat (ue_id (v_used_elements v ! masked v (unat (v_used_tail v)))) = hd c"
  shows "\<exists>ds' p'. complete_one fuel v =
            Some (Inr (v\<lparr>v_used_tail := v_used_tail v + 1,
                         v_fulfilled := v_fulfilled v @
                           [(v_completions v ! hd c,
                             ue_len (v_used_elements v ! masked v (unat (v_used_tail v))))],
                         v_descs := ds', v_free_desc := p',
                         v_available_descriptors := v_available_descriptors v + length c\<rparr>)) \<and>
          vring_inv (v\<lparr>v_used_tail := v_used_tail v + 1,
                       v_fulfilled := v_fulfilled v @
                           [(v_completions v ! hd c,
                             ue_len (v_used_elements v ! masked v (unat (v_used_tail v))))],
                       v_descs := ds', v_free_desc := p',
                       v_available_descriptors := v_available_descriptors v + length c\<rparr>)
                    (rev c @ fs) (remove1 c cs) r"
proof -
  define e where "e = v_used_elements v ! masked v (unat (v_used_tail v))"
  define v2 where "v2 = v\<lparr>v_used_tail := v_used_tail v + 1,
                         v_fulfilled := v_fulfilled v @ [(v_completions v ! hd c, ue_len e)]\<rparr>"
  obtain k where k: "v_size v = 2 ^ k"
    using inv by (auto simp: vring_inv_def)
  have slot: "masked v (unat (v_used_tail v)) < length (v_used_elements v)"
    using inv masked_less [OF k] by (simp add: vring_inv_def)
  have "is_chain (v_descs v) c"
    using inv c by (simp add: vring_inv_def)
  then have "hd c < length (v_descs v)"
    by (cases c) (auto intro: is_chain_bound)
  then have head: "hd c < length (v_completions v)"
    using inv by (simp add: vring_inv_def)
  have inv2: "vring_inv v2 fs cs r"
    by (rule vring_inv_frame [OF inv]) (simp_all add: v2_def)
  have step: "complete_one fuel v = free_chain fuel v2 (hd c)"
    using slot head ue by (simp add: complete_one_def Let_def v2_def e_def)
  from free_chain_inv [OF inv2 c fuel] show ?thesis
    unfolding step by (simp add: v2_def e_def)
qed

text \<open>
  The drain loop over a window of used elements that report distinct in-flight
  chains by their heads.
\<close>

lemma drain_inv:
  assumes "vring_inv v fs cs r"
    and "map (\<lambda>ue. unat (ue_id ue)) (used_window v (v_used_tail v) n) = map hd ps"
    and "distinct ps" and "set ps \<subseteq> set cs"
    and "used_head - v_used_tail v = of_nat n" and "n < 65536"
    and "v_size v \<le> fuel"
  shows "\<exists>v'. drain fuel v used_head = Some (Inr v') \<and>
           vring_inv v' (rev (concat ps) @ fs) (fold remove1 ps cs) r \<and>
           v_used_tail v' = used_head \<and>
           v_used_idx v' = v_used_idx v \<and>
           v_event_index v' = v_event_index v \<and>
           v_fulfilled v' = v_fulfilled v @
             map (\<lambda>ue. (v_completions v ! unat (ue_id ue), ue_len ue))
                 (used_window v (v_used_tail v) n) \<and>
           v_available_descriptors v' = v_available_descriptors v + length (concat ps)"
  using assms
proof (induction ps arbitrary: v fs cs n)
  case Nil
  then have "n = 0"
    by (cases n) auto
  then have "used_head = v_used_tail v"
    using Nil.prems(5) by simp
  then show ?case
    using Nil.prems(1) \<open>n = 0\<close> by (subst drain.simps) simp
next
  case (Cons c ps)
  obtain m where n: "n = Suc m"
    using Cons.prems(2) by (cases n) auto
  define e where "e = v_used_elements v ! masked v (unat (v_used_tail v))"
  have ue: "unat (ue_id (v_used_elements v ! masked v (unat (v_used_tail v)))) = hd c"
    and rest: "map (\<lambda>ue. unat (ue_id ue)) (used_window v (v_used_tail v + 1) m) = map hd ps"
    using Cons.prems(2) by (simp_all add: n)
  have c: "c \<in> set cs"
    using Cons.prems(4) by simp
  have fuel: "length c \<le> fuel"
    using chain_length_le [OF Cons.prems(1) c] Cons.prems(7) by simp
  have ne: "used_head \<noteq> v_used_tail v"
  proof
    assume "used_head = v_used_tail v"
    then have "(of_nat n :: 16 word) = 0"
      using Cons.prems(5) by simp
    then have "unat (of_nat n :: 16 word) = 0"
      by simp
    then have "n = 0"
      using Cons.prems(6) by (simp add: unat_of_nat)
    then show False
      using n by simp
  qed
  from complete_one_inv [OF Cons.prems(1) c fuel ue]
  obtain ds' p' where one: "complete_one fuel v =
            Some (Inr (v\<lparr>v_used_tail := v_used_tail v + 1,
                         v_fulfilled := v_fulfilled v @ [(v_completions v ! hd c, ue_len e)],
                         v_descs := ds', v_free_desc := p',
                         v_available_descriptors := v_available_descriptors v + length c\<rparr>))"
    and inv1: "vring_inv (v\<lparr>v_used_tail := v_used_tail v + 1,
                       v_fulfilled := v_fulfilled v @ [(v_completions v ! hd c, ue_len e)],
                       v_descs := ds', v_free_desc := p',
                       v_available_descriptors := v_available_descriptors v + length c\<rparr>)
                    (rev c @ fs) (remove1 c cs) r"
    unfolding e_def by blast
  define v1 where "v1 = v\<lparr>v_used_tail := v_used_tail v + 1,
                       v_fulfilled := v_fulfilled v @ [(v_completions v ! hd c, ue_len e)],
                       v_descs := ds', v_free_desc := p',
                       v_available_descriptors := v_available_descriptors v + length c\<rparr>"
  have win1: "used_window v1 t k = used_window v t k" for t k
    by (rule used_window_cong) (simp_all add: v1_def)
  have rest1: "map (\<lambda>ue. unat (ue_id ue)) (used_window v1 (v_used_tail v1) m) = map hd ps"
    using rest by (simp add: win1) (simp add: v1_def)
  have dist1: "distinct ps"
    using Cons.prems(3) by simp
  have sub1: "set ps \<subseteq> set (remove1 c cs)"
  proof
    fix x assume x: "x \<in> set ps"
    then have "x \<noteq> c" and "x \<in> set cs"
      using Cons.prems(3,4) by auto
    then show "x \<in> set (remove1 c cs)"
      by (simp add: in_set_remove1)
  qed
  have head1: "used_head - v_used_tail v1 = of_nat m"
  proof -
    have "used_head - (v_used_tail v + 1) = (used_head - v_used_tail v) - 1"
      by simp
    also have "\<dots> = of_nat m"
      unfolding Cons.prems(5) by (simp add: n)
    finally show ?thesis
      by (simp add: v1_def)
  qed
  have m: "m < 65536"
    using Cons.prems(6) n by simp
  have fuel1: "v_size v1 \<le> fuel"
    using Cons.prems(7) by (simp add: v1_def)
  from Cons.IH [OF inv1 [folded v1_def] rest1 dist1 sub1 head1 m fuel1]
  obtain v' where run: "drain fuel v1 used_head = Some (Inr v')"
    and inv': "vring_inv v' (rev (concat ps) @ rev c @ fs) (fold remove1 ps (remove1 c cs)) r"
    and tail': "v_used_tail v' = used_head"
    and idx': "v_used_idx v' = v_used_idx v1"
    and ev': "v_event_index v' = v_event_index v1"
    and ful': "v_fulfilled v' = v_fulfilled v1 @
             map (\<lambda>ue. (v_completions v1 ! unat (ue_id ue), ue_len ue))
                 (used_window v1 (v_used_tail v1) m)"
    and av': "v_available_descriptors v' = v_available_descriptors v1 + length (concat ps)"
    by blast
  have step: "drain fuel v used_head = drain fuel v1 used_head"
    using ne one by (subst drain.simps) (simp add: v1_def)
  have "v_fulfilled v' = v_fulfilled v @
             map (\<lambda>ue. (v_completions v ! unat (ue_id ue), ue_len ue))
                 (used_window v (v_used_tail v) n)"
    using ful' ue by (simp add: win1 n) (simp add: v1_def e_def)
  then show ?case
    using step run inv' tail' idx' ev' av' by (simp add: v1_def)
qed

lemma enable_interrupts_effect:
  "enable_interrupts v =
     (v_used_idx v \<noteq> v_used_tail v,
      if \<not> v_event_index v then v\<lparr>v_avail_flags := 0\<rparr>
      else v\<lparr>v_used_event := v_used_tail v\<rparr>)"
  by (simp add: enable_interrupts_def Let_def)

text \<open>
  \<open>do_complete\<close> on a ring whose used elements report the chains \<open>ps\<close>: every
  descriptor of every reported chain goes back to the free list, with one permit
  each, and nothing is left pending.
\<close>

lemma do_complete_inv:
  assumes inv: "vring_inv v fs cs r" and rep: "reports v ps" and sub: "set ps \<subseteq> set cs"
    and fuel: "v_size v \<le> fuel"
  shows "\<exists>v'. do_complete fuel v = Some (Inr v') \<and>
           vring_inv v' (rev (concat ps) @ fs) (fold remove1 ps cs) r \<and>
           v_used_tail v' = v_used_idx v' \<and>
           v_used_idx v' = v_used_idx v \<and>
           v_fulfilled v' = v_fulfilled v @
             map (\<lambda>ue. (v_completions v ! unat (ue_id ue), ue_len ue)) (pending v) \<and>
           v_available_descriptors v' = v_available_descriptors v + length (concat ps)"
proof -
  obtain f where f: "fuel = Suc f"
    using fuel vring_inv_size(1) [OF inv] by (cases fuel) auto
  define n where "n = unat (v_used_idx v - v_used_tail v)"
  define v0 where "v0 = disable_interrupts v"
  have v0: "v0 = v \<or> v0 = v\<lparr>v_avail_flags := VRING_AVAIL_F_NO_INTERRUPT\<rparr>"
    by (simp add: v0_def disable_interrupts_def)
  have same: "v_used_tail v0 = v_used_tail v" "v_used_idx v0 = v_used_idx v"
    "v_size v0 = v_size v" "v_fulfilled v0 = v_fulfilled v" "v_completions v0 = v_completions v"
    "v_available_descriptors v0 = v_available_descriptors v"
    "v_used_elements v0 = v_used_elements v"
    using v0 by auto
  have inv0: "vring_inv v0 fs cs r"
    using v0 inv by (auto intro: vring_inv_frame [OF inv])
  have win0: "used_window v0 t k = used_window v t k" for t k
    by (rule used_window_cong) (simp_all add: same)
  have rep0: "map (\<lambda>ue. unat (ue_id ue)) (used_window v0 (v_used_tail v0) n) = map hd ps"
    using rep by (simp add: reports_def pending_def win0 same n_def)
  have dist: "distinct ps"
    using rep by (simp add: reports_def)
  have head: "v_used_idx v0 - v_used_tail v0 = of_nat n"
    by (simp add: same n_def)
  have n: "n < 65536"
    using unsigned_less [of "v_used_idx v - v_used_tail v"] by (simp add: n_def)
  have fuel0: "v_size v0 \<le> fuel"
    using fuel by (simp add: same)
  from drain_inv [OF inv0 rep0 dist sub head n fuel0]
  obtain v1 where run: "drain fuel v0 (v_used_idx v0) = Some (Inr v1)"
    and inv1: "vring_inv v1 (rev (concat ps) @ fs) (fold remove1 ps cs) r"
    and tail1: "v_used_tail v1 = v_used_idx v0"
    and idx1: "v_used_idx v1 = v_used_idx v0"
    and ful1: "v_fulfilled v1 = v_fulfilled v0 @
             map (\<lambda>ue. (v_completions v0 ! unat (ue_id ue), ue_len ue))
                 (used_window v0 (v_used_tail v0) n)"
    and av1: "v_available_descriptors v1 = v_available_descriptors v0 + length (concat ps)"
    by blast
  define v2 where "v2 = (if \<not> v_event_index v1 then v1\<lparr>v_avail_flags := 0\<rparr>
                         else v1\<lparr>v_used_event := v_used_tail v1\<rparr>)"
  have en: "enable_interrupts v1 = (False, v2)"
    by (simp add: enable_interrupts_effect tail1 idx1 v2_def)
  have result: "do_complete fuel v = Some (Inr v2)"
    using run en by (simp add: f Let_def v0_def [symmetric])
  have inv2: "vring_inv v2 (rev (concat ps) @ fs) (fold remove1 ps cs) r"
    by (rule vring_inv_frame [OF inv1]) (simp_all add: v2_def)
  have "v_used_tail v2 = v_used_idx v2" "v_used_idx v2 = v_used_idx v"
    "v_fulfilled v2 = v_fulfilled v @
       map (\<lambda>ue. (v_completions v ! unat (ue_id ue), ue_len ue)) (pending v)"
    "v_available_descriptors v2 = v_available_descriptors v + length (concat ps)"
    using tail1 idx1 ful1 av1 by (simp_all add: v2_def same win0 pending_def n_def)
  then show ?thesis
    using result inv2 by blast
qed

lemma allocate_desc_effect:
  assumes "free_list (v_descs v) (v_free_desc v) (f # fs)"
  shows "allocate_desc v = Inr (f, v\<lparr>v_free_desc := uint (d_next (v_descs v ! f))\<rparr>)"
    and "free_list (v_descs v) (uint (d_next (v_descs v ! f))) fs"
  using assms by (simp_all add: allocate_desc_def Let_def)

lemma post_buffers_effect:
  assumes "free_list (v_descs v) (v_free_desc v) fs" and "distinct fs"
    and "length bs \<le> length fs"
    and "length (v_completions v) = length (v_descs v)"
  shows "\<exists>ds' cm' p'.
           post_buffers v bs hp prev =
             Inr (v\<lparr>v_descs := ds', v_completions := cm', v_free_desc := p'\<rparr>,
                  if bs = [] then prev else fs ! (length bs - 1)) \<and>
           free_list ds' p' (drop (length bs) fs) \<and>
           length ds' = length (v_descs v) \<and> length cm' = length (v_completions v) \<and>
           (\<forall>j. j \<notin> set (take (length bs) fs) \<longrightarrow>
                ds' ! j = v_descs v ! j \<and> cm' ! j = v_completions v ! j) \<and>
           (\<forall>k < length bs.
                ds' ! (fs ! k) = posted_desc (bs ! k) (if k = 0 then hp else True)
                                   (if k = 0 then prev else fs ! (k - 1)) \<and>
                cm' ! (fs ! k) = b_completed (bs ! k))"
  using assms
proof (induction bs arbitrary: v hp prev fs)
  case Nil
  show ?case
    using Nil.prems(1)
    by (intro exI [of _ "v_descs v"] exI [of _ "v_completions v"] exI [of _ "v_free_desc v"])
       simp
next
  case (Cons b bs)
  obtain f fs' where fs: "fs = f # fs'"
    using Cons.prems(3) by (cases fs) auto
  have f: "f < length (v_descs v)" "f \<notin> set fs'"
    using Cons.prems(1,2) by (auto simp: fs)
  define v1 where "v1 = v\<lparr>v_free_desc := uint (d_next (v_descs v ! f))\<rparr>"
  define v2 where "v2 = v1\<lparr>v_descs := (v_descs v1)[f := posted_desc b hp prev],
                           v_completions := (v_completions v1)[f := b_completed b]\<rparr>"
  have fl0: "free_list (v_descs v) (v_free_desc v) (f # fs')"
    using Cons.prems(1) by (simp add: fs)
  have alloc: "allocate_desc v = Inr (f, v1)"
    unfolding v1_def by (rule allocate_desc_effect(1) [OF fl0])
  have "free_list (v_descs v) (uint (d_next (v_descs v ! f))) fs'"
    by (rule allocate_desc_effect(2) [OF fl0])
  then have fl2: "free_list (v_descs v2) (v_free_desc v2) fs'"
    using f(2) by (simp add: v2_def v1_def free_list_frame del: free_list.simps)
  have step: "post_buffers v (b # bs) hp prev = post_buffers v2 bs True f"
    using alloc f(1) Cons.prems(4)
    by (simp add: v2_def v1_def posted_desc_def Let_def)
  have dist2: "distinct fs'" and len2: "length bs \<le> length fs'"
    and cm2: "length (v_completions v2) = length (v_descs v2)"
    using Cons.prems(2,3,4) by (simp_all add: fs v2_def v1_def)
  from Cons.IH [OF fl2 dist2 len2 cm2, of True f]
  obtain ds' cm' p' where run: "post_buffers v2 bs True f =
             Inr (v2\<lparr>v_descs := ds', v_completions := cm', v_free_desc := p'\<rparr>,
                  if bs = [] then f else fs' ! (length bs - 1))"
    and fl': "free_list ds' p' (drop (length bs) fs')"
    and len': "length ds' = length (v_descs v2)" "length cm' = length (v_completions v2)"
    and frame': "\<forall>j. j \<notin> set (take (length bs) fs') \<longrightarrow>
                ds' ! j = v_descs v2 ! j \<and> cm' ! j = v_completions v2 ! j"
    and point': "\<forall>k < length bs.
                ds' ! (fs' ! k) = posted_desc (bs ! k) (if k = 0 then True else True)
                                   (if k = 0 then f else fs' ! (k - 1)) \<and>
                cm' ! (fs' ! k) = b_completed (bs ! k)"
    by blast
  have state: "v2\<lparr>v_descs := ds', v_completions := cm', v_free_desc := p'\<rparr> =
               v\<lparr>v_descs := ds', v_completions := cm', v_free_desc := p'\<rparr>"
    by (simp add: v2_def v1_def)
  have ret: "(if bs = [] then f else fs' ! (length bs - 1)) =
             (if b # bs = [] then prev else fs ! (length (b # bs) - 1))"
    by (cases bs) (simp_all add: fs)
  have result: "post_buffers v (b # bs) hp prev =
             Inr (v\<lparr>v_descs := ds', v_completions := cm', v_free_desc := p'\<rparr>,
                  if b # bs = [] then prev else fs ! (length (b # bs) - 1))"
    using step run state ret by simp
  have fl: "free_list ds' p' (drop (length (b # bs)) fs)"
    using fl' by (simp add: fs del: free_list.simps)
  have len: "length ds' = length (v_descs v)" "length cm' = length (v_completions v)"
    using len' by (simp_all add: v2_def v1_def)
  have frame: "\<forall>j. j \<notin> set (take (length (b # bs)) fs) \<longrightarrow>
                ds' ! j = v_descs v ! j \<and> cm' ! j = v_completions v ! j"
    using frame' by (auto simp: fs v2_def v1_def)
  have at_f: "ds' ! f = posted_desc b hp prev" "cm' ! f = b_completed b"
  proof -
    have "f \<notin> set (take (length bs) fs')"
      using f(2) by (auto dest: in_set_takeD)
    then have "ds' ! f = v_descs v2 ! f" "cm' ! f = v_completions v2 ! f"
      using frame' by auto
    then show "ds' ! f = posted_desc b hp prev" "cm' ! f = b_completed b"
      using f(1) Cons.prems(4) by (simp_all add: v2_def v1_def)
  qed
  have point: "\<forall>k < length (b # bs).
                ds' ! (fs ! k) = posted_desc ((b # bs) ! k) (if k = 0 then hp else True)
                                   (if k = 0 then prev else fs ! (k - 1)) \<and>
                cm' ! (fs ! k) = b_completed ((b # bs) ! k)"
  proof (intro allI impI)
    fix k assume k: "k < length (b # bs)"
    show "ds' ! (fs ! k) = posted_desc ((b # bs) ! k) (if k = 0 then hp else True)
                                   (if k = 0 then prev else fs ! (k - 1)) \<and>
                cm' ! (fs ! k) = b_completed ((b # bs) ! k)"
    proof (cases k)
      case 0
      then show ?thesis using at_f by (simp add: fs)
    next
      case (Suc k')
      then have "k' < length bs" using k by simp
      with point' have "ds' ! (fs' ! k') = posted_desc (bs ! k') True
                                   (if k' = 0 then f else fs' ! (k' - 1))"
        and "cm' ! (fs' ! k') = b_completed (bs ! k')"
        by auto
      moreover have "(if k' = 0 then f else fs' ! (k' - 1)) = fs ! k'"
        by (cases k') (simp_all add: fs)
      ultimately show ?thesis
        by (simp add: Suc fs)
    qed
  qed
  show ?case
    using result fl len frame point by blast
qed

lemma chain_of_links:
  assumes "\<forall>k \<le> n. d_has_next (ds ! (fs ! k)) = (k \<noteq> 0) \<and>
                    (k \<noteq> 0 \<longrightarrow> unat (d_next (ds ! (fs ! k))) = fs ! (k - 1))"
    and "n < length fs" and "\<forall>i \<in> set fs. i < length ds"
  shows "is_chain ds (rev (take (Suc n) fs))"
  using assms
proof (induction n)
  case 0
  then have "fs \<noteq> []" by auto
  then have "take (Suc 0) fs = [fs ! 0]"
    by (cases fs) auto
  then show ?case
    using 0 by auto
next
  case (Suc n)
  have prev: "is_chain ds (rev (take (Suc n) fs))"
    using Suc by auto
  have t1: "take (Suc (Suc n)) fs = take (Suc n) fs @ [fs ! Suc n]"
    using Suc.prems(2) by (simp add: take_Suc_conv_app_nth)
  have t0: "take (Suc n) fs = take n fs @ [fs ! n]"
    using Suc.prems(2) by (simp add: take_Suc_conv_app_nth)
  have link: "d_has_next (ds ! (fs ! Suc n))" "unat (d_next (ds ! (fs ! Suc n))) = fs ! n"
    using Suc.prems(1) by auto
  have "fs ! Suc n < length ds"
    using Suc.prems(2,3) by auto
  then show ?case
    using prev link unfolding t1 by (simp add: t0)
qed

text \<open>
  One chain of \<open>n \<ge> 1\<close> buffers posted to a well-formed ring that holds \<open>n\<close> reserved
  permits: the first \<open>n\<close> descriptors of the free list are taken, the last buffer
  getting the first of them, and the new chain is in flight.
\<close>

lemma post_chain_effect:
  assumes inv: "vring_inv v fs cs r" and n: "bc \<noteq> []" "length bc \<le> r"
  defines "n \<equiv> length bc"
  defines "ch \<equiv> rev (take n fs)"
  shows "\<exists>ds' cm' p'.
           post_chain v bc =
             Inr (v\<lparr>v_descs := ds', v_completions := cm', v_free_desc := p',
                    v_avail_ring := (v_avail_ring v)
                       [unat (v_avail_head v) mod v_size v := of_nat (hd ch)],
                    v_avail_head := v_avail_head v + 1,
                    v_avail_added_since_kick := v_avail_added_since_kick v + 1\<rparr>) \<and>
           vring_inv (v\<lparr>v_descs := ds', v_completions := cm', v_free_desc := p',
                    v_avail_ring := (v_avail_ring v)
                       [unat (v_avail_head v) mod v_size v := of_nat (hd ch)],
                    v_avail_head := v_avail_head v + 1,
                    v_avail_added_since_kick := v_avail_added_since_kick v + 1\<rparr>)
                  (drop n fs) (cs @ [ch]) (r - n) \<and>
           length ch = n \<and>
           (\<forall>i < n. ds' ! (ch ! i) =
                       posted_desc (bc ! i) (Suc i < n) (if Suc i < n then ch ! Suc i else 0) \<and>
                     cm' ! (ch ! i) = b_completed (bc ! i)) \<and>
           (\<forall>j. j \<notin> set ch \<longrightarrow> ds' ! j = v_descs v ! j \<and> cm' ! j = v_completions v ! j)"
proof -
  have fl: "free_list (v_descs v) (v_free_desc v) fs" and dist: "distinct fs"
    and cm: "length (v_completions v) = length (v_descs v)"
    and avail: "v_available_descriptors v + r = length fs"
    using inv by (auto simp: vring_inv_def)
  have nfs: "n \<le> length fs" and n0: "0 < n"
    using n avail by (auto simp: n_def)
  have len_rev: "length (rev bc) \<le> length fs" "length (rev bc) = n"
    using nfs by (simp_all add: n_def)
  have "\<exists>ds' cm' p'. post_buffers v (rev bc) False 0 =
             Inr (v\<lparr>v_descs := ds', v_completions := cm', v_free_desc := p'\<rparr>, fs ! (n - 1)) \<and>
           free_list ds' p' (drop n fs) \<and>
           length ds' = length (v_descs v) \<and> length cm' = length (v_completions v) \<and>
           (\<forall>j. j \<notin> set (take n fs) \<longrightarrow>
                ds' ! j = v_descs v ! j \<and> cm' ! j = v_completions v ! j) \<and>
           (\<forall>k < n.
                ds' ! (fs ! k) = posted_desc (rev bc ! k) (if k = 0 then False else True)
                                   (if k = 0 then 0 else fs ! (k - 1)) \<and>
                cm' ! (fs ! k) = b_completed (rev bc ! k))"
    using post_buffers_effect [OF fl dist len_rev(1) cm, of False 0] n(1)
    by (simp add: n_def del: free_list.simps)
  then obtain ds' cm' p' where run: "post_buffers v (rev bc) False 0 =
             Inr (v\<lparr>v_descs := ds', v_completions := cm', v_free_desc := p'\<rparr>, fs ! (n - 1))"
    and fl': "free_list ds' p' (drop n fs)"
    and len': "length ds' = length (v_descs v)" "length cm' = length (v_completions v)"
    and frame': "\<forall>j. j \<notin> set (take n fs) \<longrightarrow>
                ds' ! j = v_descs v ! j \<and> cm' ! j = v_completions v ! j"
    and point': "\<forall>k < n.
                ds' ! (fs ! k) = posted_desc (rev bc ! k) (if k = 0 then False else True)
                                   (if k = 0 then 0 else fs ! (k - 1)) \<and>
                cm' ! (fs ! k) = b_completed (rev bc ! k)"
    by blast
  obtain k where k: "k \<le> 16" "v_size v = 2 ^ k"
    using inv by (auto simp: vring_inv_def)
  define slot where "slot = unat (v_avail_head v) mod v_size v"
  define v' where "v' = v\<lparr>v_descs := ds', v_completions := cm', v_free_desc := p',
      v_avail_ring := (v_avail_ring v)[slot := of_nat (fs ! (n - 1))],
      v_avail_head := v_avail_head v + 1,
      v_avail_added_since_kick := v_avail_added_since_kick v + 1\<rparr>"
  have slot_lt: "slot < length (v_avail_ring v)"
    using inv k by (simp add: slot_def vring_inv_def)
  have "v_size (v\<lparr>v_descs := ds', v_completions := cm', v_free_desc := p'\<rparr>) = 2 ^ k"
    using k(2) by simp
  from masked_mod [OF this]
  have slot_eq: "masked (v\<lparr>v_descs := ds', v_completions := cm', v_free_desc := p'\<rparr>)
                   (unat (v_avail_head v)) = slot"
    by (simp add: slot_def)
  have result: "post_chain v bc = Inr v'"
    using run slot_lt by (simp add: post_chain_def Let_def v'_def slot_eq)
  have ch_len: "length ch = n"
    using nfs by (simp add: ch_def)
  have ch_nth: "ch ! i = fs ! (n - Suc i)" if "i < n" for i
    using that nfs by (simp add: ch_def rev_nth)
  have bc_nth: "rev bc ! (n - Suc i) = bc ! i" if "i < n" for i
    using that by (simp add: rev_nth n_def)
  have bound: "\<forall>i \<in> set fs. i < 65536 \<and> i < length ds'"
    using free_list_bound [OF fl] vring_inv_size(3) [OF inv] len' by fastforce
  have point: "\<forall>i < n. v_descs v' ! (ch ! i) =
                       posted_desc (bc ! i) (Suc i < n) (if Suc i < n then ch ! Suc i else 0) \<and>
                     v_completions v' ! (ch ! i) = b_completed (bc ! i)"
  proof (intro allI impI)
    fix i assume i: "i < n"
    have kk: "n - Suc i < n"
      using i by simp
    have "n - Suc i = 0 \<longleftrightarrow> \<not> Suc i < n"
      using i by auto
    moreover have "fs ! (n - Suc i - 1) = ch ! Suc i" if "Suc i < n"
      using that by (simp add: ch_nth)
    ultimately show "v_descs v' ! (ch ! i) =
                       posted_desc (bc ! i) (Suc i < n) (if Suc i < n then ch ! Suc i else 0) \<and>
                     v_completions v' ! (ch ! i) = b_completed (bc ! i)"
      using point' [rule_format, OF kk] i
      by (auto simp: ch_nth bc_nth v'_def)
  qed
  have set_ch: "set ch = set (take n fs)"
    by (simp add: ch_def)
  have frame: "\<forall>j. j \<notin> set ch \<longrightarrow> v_descs v' ! j = v_descs v ! j \<and>
                               v_completions v' ! j = v_completions v ! j"
    using frame' by (simp add: set_ch v'_def)
  have hd_ch: "hd ch = fs ! (n - 1)"
    using n0 ch_nth [of 0] ch_len by (cases ch) auto
  have chain: "is_chain ds' ch"
  proof -
    have "\<forall>k \<le> n - 1. d_has_next (ds' ! (fs ! k)) = (k \<noteq> 0) \<and>
                    (k \<noteq> 0 \<longrightarrow> unat (d_next (ds' ! (fs ! k))) = fs ! (k - 1))"
    proof (intro allI impI)
      fix k assume "k \<le> n - 1"
      then have kn: "k < n" using n0 by simp
      then have "fs ! (k - 1) \<in> set fs"
        using nfs by (intro nth_mem) simp
      then have "fs ! (k - 1) < 65536"
        using bound by blast
      then show "d_has_next (ds' ! (fs ! k)) = (k \<noteq> 0) \<and>
                    (k \<noteq> 0 \<longrightarrow> unat (d_next (ds' ! (fs ! k))) = fs ! (k - 1))"
        using point' [rule_format, OF kn]
        by (simp add: posted_desc_def unat_next_roundtrip)
    qed
    moreover have "n - 1 < length fs"
      using n0 nfs by simp
    ultimately have "is_chain ds' (rev (take (Suc (n - 1)) fs))"
      using bound by (intro chain_of_links) auto
    then show ?thesis
      using n0 by (simp add: ch_def)
  qed
  have others: "is_chain ds' c" if "c \<in> set cs" for c
  proof -
    have c: "is_chain (v_descs v) c"
      using inv that by (simp add: vring_inv_def)
    have "set c \<inter> set fs = {}"
      using inv that by (auto simp: vring_inv_def)
    then have "set c \<inter> set (take n fs) = {}"
      by (auto dest: in_set_takeD)
    then have "\<forall>j \<in> set c. ds' ! j = v_descs v ! j"
      using frame' by auto
    from is_chain_cong [OF len'(1) this] c show ?thesis
      by simp
  qed
  have split: "fs = take n fs @ drop n fs"
    by simp
  have dist': "distinct (drop n fs @ concat (cs @ [ch]))"
  proof -
    have "distinct (fs @ concat cs)"
      using inv by (simp add: vring_inv_def)
    then have "distinct (take n fs @ drop n fs @ concat cs)"
      by (simp only: append_assoc [symmetric] append_take_drop_id)
    then show ?thesis
      by (auto simp: set_ch ch_def)
  qed
  have set': "set (drop n fs @ concat (cs @ [ch])) = {..<v_size v}"
  proof -
    have "set (fs @ concat cs) = {..<v_size v}"
      using inv by (simp add: vring_inv_def)
    then have "set (take n fs @ drop n fs @ concat cs) = {..<v_size v}"
      by (simp only: append_assoc [symmetric] append_take_drop_id)
    then show ?thesis
      by (auto simp: set_ch)
  qed
  have inv': "vring_inv v' (drop n fs) (cs @ [ch]) (r - n)"
    unfolding vring_inv_def
    using inv fl' len' chain others dist' set' n avail
    by (auto simp: vring_inv_def v'_def n_def)
  have "v' = v\<lparr>v_descs := ds', v_completions := cm', v_free_desc := p',
                    v_avail_ring := (v_avail_ring v)
                       [unat (v_avail_head v) mod v_size v := of_nat (hd ch)],
                    v_avail_head := v_avail_head v + 1,
                    v_avail_added_since_kick := v_avail_added_since_kick v + 1\<rparr>"
    by (simp add: v'_def slot_def hd_ch)
  moreover have "\<forall>i < n. ds' ! (ch ! i) =
                       posted_desc (bc ! i) (Suc i < n) (if Suc i < n then ch ! Suc i else 0) \<and>
                     cm' ! (ch ! i) = b_completed (bc ! i)"
    using point by (simp add: v'_def)
  moreover have "\<forall>j. j \<notin> set ch \<longrightarrow> ds' ! j = v_descs v ! j \<and> cm' ! j = v_completions v ! j"
    using frame by (simp add: v'_def)
  ultimately show ?thesis
    using result inv' ch_len by blast
qed

subsection \<open>Construction and the quiescent points\<close>

lemma setup_prefix:
  assumes "v_free_desc v = - 1" and "n \<le> length (v_descs v)" and "length (v_descs v) \<le> 65536"
  shows "\<exists>ds' p'. fold (\<lambda>i r. case r of Inl e \<Rightarrow> Inl e | Inr v' \<Rightarrow> free_desc v' i) [0..<n] (Inr v) =
             Inr (v\<lparr>v_descs := ds', v_free_desc := p',
                    v_available_descriptors := v_available_descriptors v + n\<rparr>) \<and>
           free_list ds' p' (rev [0..<n]) \<and> length ds' = length (v_descs v)"
  using assms(2)
proof (induction n)
  case 0
  show ?case
    using assms(1)
    by (intro exI [of _ "v_descs v"] exI [of _ "v_free_desc v"]) simp
next
  case (Suc n)
  then obtain ds' p' where run: "fold (\<lambda>i r. case r of Inl e \<Rightarrow> Inl e | Inr v' \<Rightarrow> free_desc v' i) [0..<n] (Inr v) =
             Inr (v\<lparr>v_descs := ds', v_free_desc := p',
                    v_available_descriptors := v_available_descriptors v + n\<rparr>)"
    and fl: "free_list ds' p' (rev [0..<n])" and len: "length ds' = length (v_descs v)"
    by auto
  define v1 where "v1 = v\<lparr>v_descs := ds', v_free_desc := p',
                    v_available_descriptors := v_available_descriptors v + n\<rparr>"
  have fl1: "free_list (v_descs v1) (v_free_desc v1) (rev [0..<n])"
    using fl by (simp add: v1_def del: free_list.simps)
  have n1: "n < length (v_descs v1)" "n \<notin> set (rev [0..<n])"
    using Suc.prems len by (simp_all add: v1_def)
  have sz1: "length (v_descs v1) \<le> 65536"
    using assms(3) len by (simp add: v1_def)
  define ds2 where "ds2 = (v_descs v1)[n := (v_descs v1 ! n)\<lparr>d_next := word_of_int (v_free_desc v1)\<rparr>]"
  have step: "free_desc v1 n = Inr (v1\<lparr>v_descs := ds2, v_free_desc := int n,
                                 v_available_descriptors := v_available_descriptors v1 + 1\<rparr>)"
    unfolding ds2_def by (rule free_desc_free_list(1) [OF fl1 n1 sz1])
  have fl2: "free_list ds2 (int n) (rev [0..<Suc n])"
    using free_desc_free_list(2) [OF fl1 n1 sz1] by (simp add: ds2_def del: free_list.simps)
  have "fold (\<lambda>i r. case r of Inl e \<Rightarrow> Inl e | Inr v' \<Rightarrow> free_desc v' i) [0..<Suc n] (Inr v) =
          Inr (v\<lparr>v_descs := ds2, v_free_desc := int n,
                 v_available_descriptors := v_available_descriptors v + Suc n\<rparr>)"
    using run step by (simp add: v1_def)
  moreover have "length ds2 = length (v_descs v)"
    using len by (simp add: ds2_def v1_def)
  ultimately show ?case
    using fl2 by blast
qed

text \<open>After construction every descriptor is free and the semaphore holds \<open>size\<close> permits.\<close>

lemma vring_ctor_inv:
  assumes "\<exists>k \<le> 16. v_size m = 2 ^ k" and "length (v_descs m) = v_size m"
    and "length (v_avail_ring m) = v_size m" and "length (v_used_elements m) = v_size m"
  shows "\<exists>v. vring_ctor m = Inr v \<and> vring_inv v (rev [0..<v_size m]) [] 0 \<and>
             v_available_descriptors v = v_size m \<and>
             v_used_tail v = 0 \<and> v_used_idx v = v_used_idx m"
proof -
  define m0 where "m0 = m\<lparr>v_avail_head := 0, v_avail_added_since_kick := 0, v_used_tail := 0,
              v_completions := replicate (v_size m) Unattached, v_fulfilled := [],
              v_available_descriptors := 0, v_free_desc := - 1, v_kicks := 0\<rparr>"
  have sz: "length (v_descs m0) \<le> 65536"
    using assms(1,2) by (auto simp: m0_def pow2_le_65536)
  have "v_free_desc m0 = - 1" "v_size m \<le> length (v_descs m0)"
    using assms(2) by (simp_all add: m0_def)
  from setup_prefix [OF this sz]
  obtain ds' p' where run: "vring_setup m0 =
             Inr (m0\<lparr>v_descs := ds', v_free_desc := p',
                    v_available_descriptors := v_available_descriptors m0 + v_size m\<rparr>)"
    and fl: "free_list ds' p' (rev [0..<v_size m])" and len: "length ds' = length (v_descs m0)"
    by (auto simp: vring_setup_def m0_def)
  define v where "v = m0\<lparr>v_descs := ds', v_free_desc := p',
                    v_available_descriptors := v_available_descriptors m0 + v_size m\<rparr>"
  have "vring_ctor m = Inr v"
    using run by (simp add: vring_ctor_def v_def m0_def)
  moreover have "vring_inv v (rev [0..<v_size m]) [] 0"
    unfolding vring_inv_def using assms fl len by (auto simp: v_def m0_def)
  moreover have "v_available_descriptors v = v_size m" "v_used_tail v = 0"
    "v_used_idx v = v_used_idx m"
    by (simp_all add: v_def m0_def)
  ultimately show ?thesis
    by blast
qed

lemma kick_frame:
  "kick v = v \<or> kick v = v\<lparr>v_kicks := v_kicks v + 1, v_avail_added_since_kick := 0\<rparr>"
  by (auto simp: kick_def Let_def)

lemma pending_cong:
  assumes "v_used_elements v' = v_used_elements v" and "v_size v' = v_size v"
    and "v_used_tail v' = v_used_tail v" and "v_used_idx v' = v_used_idx v"
  shows "pending v' = pending v"
  using used_window_cong [OF assms(1,2)] by (simp add: pending_def assms(3,4))

lemma reports_cong:
  assumes "v_used_elements v' = v_used_elements v" and "v_size v' = v_size v"
    and "v_used_tail v' = v_used_tail v" and "v_used_idx v' = v_used_idx v"
  shows "reports v' ps = reports v ps"
  using pending_cong [OF assms] by (simp add: reports_def)

lemma reports_nothing: "v_used_tail v = v_used_idx v \<Longrightarrow> reports v []"
  by (simp add: reports_def pending_def)

lemma reach_inv:
  "reach v fs cs ps r \<Longrightarrow> vring_inv v fs cs r \<and> reports v ps \<and> set ps \<subseteq> set cs"
proof (induction rule: reach.induct)
  case (constructed m v)
  from vring_ctor_inv [OF constructed(1-4)] constructed(6)
  have inv: "vring_inv v (rev [0..<v_size m]) [] 0"
    and idle: "v_used_tail v = 0" "v_used_idx v = v_used_idx m"
    by auto
  have "reports v []"
    by (rule reports_nothing) (simp add: idle constructed(5))
  then show ?case
    using inv by simp
next
  case (waited v fs cs ps r n v')
  then have v': "v' = v\<lparr>v_available_descriptors := v_available_descriptors v - n\<rparr>"
    and n: "n \<le> v_available_descriptors v"
    by (auto simp: semaphore_wait_def split: if_splits)
  have "vring_inv v' fs cs (r + n)"
    using waited.IH n by (simp add: vring_inv_def v')
  moreover have "reports v' ps = reports v ps"
    by (rule reports_cong) (simp_all add: v')
  ultimately show ?case
    using waited.IH by simp
next
  case (posted v fs cs ps r bc v')
  from post_chain_effect [OF conjunct1 [OF posted.IH] posted.hyps(2,3)] posted.hyps(4)
  obtain ds' cm' p' where v': "v' = v\<lparr>v_descs := ds', v_completions := cm', v_free_desc := p',
                    v_avail_ring := (v_avail_ring v)
                       [unat (v_avail_head v) mod v_size v :=
                          of_nat (hd (rev (take (length bc) fs)))],
                    v_avail_head := v_avail_head v + 1,
                    v_avail_added_since_kick := v_avail_added_since_kick v + 1\<rparr>"
    and inv': "vring_inv v' (drop (length bc) fs) (cs @ [rev (take (length bc) fs)])
                 (r - length bc)"
    by auto
  have "reports v' ps = reports v ps"
    by (rule reports_cong) (simp_all add: v')
  then show ?case
    using inv' posted.IH by auto
next
  case (published v fs cs ps r)
  define v1 where "v1 = v\<lparr>v_avail_idx := v_avail_head v\<rparr>"
  have "vring_inv v1 fs cs r"
    by (rule vring_inv_frame [OF conjunct1 [OF published.IH]]) (simp_all add: v1_def)
  then have "vring_inv (kick v1) fs cs r"
    using kick_frame [of v1] by (auto intro: vring_inv_frame)
  moreover have "reports (kick v1) ps = reports v ps"
  proof (rule reports_cong)
    show "v_used_elements (kick v1) = v_used_elements v" "v_size (kick v1) = v_size v"
      "v_used_tail (kick v1) = v_used_tail v" "v_used_idx (kick v1) = v_used_idx v"
      using kick_frame [of v1] by (auto simp: v1_def)
  qed
  ultimately show ?case
    using published.IH by (simp add: v1_def)
next
  case (reported v fs cs ps r elements v1 flags idx avail_event qs)
  have inv: "vring_inv v fs cs r"
    using reported.IH by simp
  have inv1: "vring_inv v1 fs cs r"
    by (rule vring_inv_frame [OF inv])
       (simp_all add: reported.hyps(2,3) host_write_def inv [unfolded vring_inv_def])
  then show ?case
    using reported.hyps(4,5) reported.IH by simp
next
  case (completed v fs cs ps r fuel v')
  have inv: "vring_inv v fs cs r" and rep: "reports v ps" and sub: "set ps \<subseteq> set cs"
    using completed.IH by simp_all
  from do_complete_inv [OF inv rep sub completed.hyps(2)] completed.hyps(3)
  have inv': "vring_inv v' (rev (concat ps) @ fs) (fold remove1 ps cs) r"
    and idle: "v_used_tail v' = v_used_idx v'"
    by auto
  have "reports v' []"
    by (rule reports_nothing [OF idle])
  then show ?case
    using inv' by simp
qed

lemma vring_inv_count:
  assumes "vring_inv v fs cs r"
  shows "length fs + length (concat cs) = v_size v"
proof -
  have "distinct (fs @ concat cs)" and "set (fs @ concat cs) = {..<v_size v}"
    using assms by (simp_all add: vring_inv_def)
  then have "length (fs @ concat cs) = card {..<v_size v}"
    by (metis distinct_card)
  then show ?thesis
    by simp
qed

subsection \<open>Malformed completions\<close>

lemma free_chain_no_abort: "free_chain fuel v i \<noteq> Some (Inl Assert_failed)"
proof (induction fuel arbitrary: v i)
  case 0
  show ?case by simp
next
  case (Suc fuel)
  show ?case
  proof (cases "length (v_descs v) \<le> i")
    case True
    then show ?thesis by simp
  next
    case False
    then obtain v1 where "free_desc v i = Inr v1"
      by (simp add: free_desc_def)
    then show ?thesis
      using False Suc.IH [of v1] by (simp add: Let_def)
  qed
qed

lemma complete_one_no_abort: "complete_one fuel v \<noteq> Some (Inl Assert_failed)"
proof (cases "length (v_used_elements v) \<le> masked v (unat (v_used_tail v))")
  case True
  then show ?thesis
    by (simp add: complete_one_def Let_def)
next
  case False
  then show ?thesis
    by (cases "length (v_completions v)
                 \<le> unat (ue_id (v_used_elements v ! masked v (unat (v_used_tail v))))")
       (simp_all add: complete_one_def Let_def free_chain_no_abort)
qed

lemma drain_no_abort: "drain fuel v used_head \<noteq> Some (Inl Assert_failed)"
proof (induction fuel v used_head rule: drain.induct)
  case (1 fuel v used_head)
  show ?case
  proof (cases "used_head \<noteq> v_used_tail v")
    case False
    then show ?thesis
      by (subst drain.simps) simp
  next
    case True
    show ?thesis
    proof (cases "complete_one fuel v")
      case None
      then show ?thesis
        using True by (subst drain.simps) simp
    next
      case (Some r)
      show ?thesis
      proof (cases r)
        case (Inl e)
        then have "e \<noteq> Assert_failed"
          using Some complete_one_no_abort [of fuel v] by auto
        then show ?thesis
          using True Some Inl by (subst drain.simps) simp
      next
        case (Inr v1)
        from "1.IH" [OF True Some Inr] show ?thesis
          using True Some Inr by (subst drain.simps) simp
      qed
    qed
  qed
qed

lemma do_complete_no_abort: "do_complete fuel v \<noteq> Some (Inl Assert_failed)"
proof (induction fuel arbitrary: v)
  case 0
  show ?case by simp
next
  case (Suc fuel)
  define v0 where "v0 = disable_interrupts v"
  show ?case
  proof (cases "drain (Suc fuel) v0 (v_used_idx v0)")
    case None
    then show ?thesis
      by (simp add: Let_def v0_def)
  next
    case (Some r)
    show ?thesis
    proof (cases r)
      case (Inl e)
      then have "e \<noteq> Assert_failed"
        using Some drain_no_abort [of "Suc fuel" v0 "v_used_idx v0"] by auto
      then show ?thesis
        using Some Inl by (simp add: Let_def v0_def)
    next
      case (Inr v1)
      obtain pending v2 where en: "enable_interrupts v1 = (pending, v2)"
        by (cases "enable_interrupts v1") auto
      show ?thesis
        using Some Inr en Suc.IH [of v2] by (simp add: Let_def v0_def)
    qed
  qed
qed

text \<open>The first pending used element names a descriptor outside the table.\<close>

lemma do_complete_bad_id:
  assumes pend: "v_used_idx v \<noteq> v_used_tail v"
    and slot: "masked v (unat (v_used_tail v)) < length (v_used_elements v)"
    and bad: "length (v_completions v)
                \<le> unat (ue_id (v_used_elements v ! masked v (unat (v_used_tail v))))"
  shows "do_complete (Suc fuel) v = Some (Inl Out_of_bounds)"
proof -
  define v0 where "v0 = disable_interrupts v"
  have v0: "v0 = v \<or> v0 = v\<lparr>v_avail_flags := VRING_AVAIL_F_NO_INTERRUPT\<rparr>"
    by (simp add: v0_def disable_interrupts_def)
  then have "complete_one (Suc fuel) v0 = Some (Inl Out_of_bounds)"
    using slot bad by (auto simp: complete_one_def Let_def masked_def)
  moreover have "v_used_idx v0 \<noteq> v_used_tail v0"
    using v0 pend by auto
  ultimately have "drain (Suc fuel) v0 (v_used_idx v0) = Some (Inl Out_of_bounds)"
    by (subst drain.simps) simp
  then show ?thesis
    by (simp add: Let_def v0_def)
qed

subsection \<open>One transmission on a ring of four descriptors\<close>

lemma ctor_ring0: "vring_ctor ring0 = Inr ring_ready"
  by code_simp

lemma wait_ring_ready:
  "semaphore_wait ring_ready 2 = Proceeds (ring_ready\<lparr>v_available_descriptors := 2\<rparr>)"
  by code_simp

lemma post_chain_ring_ready:
  "post_chain (ring_ready\<lparr>v_available_descriptors := 2\<rparr>)
     [\<lparr>b_addr = 4096, b_len = 10, b_completed = Tx_done packet64_sent, b_writeable = False\<rparr>,
      \<lparr>b_addr = 8192, b_len = 64, b_completed = Unattached, b_writeable = False\<rparr>] =
   Inr (ring_tx_posted\<lparr>v_avail_idx := 0, v_avail_added_since_kick := 1, v_kicks := 0\<rparr>)"
  by code_simp

lemma publish_ring:
  "kick ((ring_tx_posted\<lparr>v_avail_idx := 0, v_avail_added_since_kick := 1, v_kicks := 0\<rparr>)
          \<lparr>v_avail_idx := v_avail_head
             (ring_tx_posted\<lparr>v_avail_idx := 0, v_avail_added_since_kick := 1, v_kicks := 0\<rparr>)\<rparr>) =
   ring_tx_posted"
  by code_simp

lemma txq_post_ring_ready:
  "txq_post 14 hw_offload 10 4096 4 ring_ready oi_tcp packet64 =
     \<lparr>tx_vhdr = vhdr_zero\<lparr>needs_csum := 1, csum_start := 34, csum_offset := 16\<rparr>,
      tx_permits = 2, tx_ring = Proceeds (Some (Inr ring_tx_posted))\<rparr>"
  by code_simp

lemma do_complete_tx_reported: "do_complete 4 ring_tx_reported = Some (Inr ring_tx_done)"
  by code_simp

lemma reach_ring_ready: "reach ring_ready [3, 2, 1, 0] [] [] 0"
proof -
  have "\<exists>k \<le> 16. v_size ring0 = 2 ^ k"
    by (intro exI [of _ 2]) (simp add: ring0_def)
  moreover have "length (v_descs ring0) = v_size ring0" "length (v_avail_ring ring0) = v_size ring0"
    "length (v_used_elements ring0) = v_size ring0" "v_used_idx ring0 = 0"
    by (simp_all add: ring0_def)
  ultimately have "reach ring_ready (rev [0..<v_size ring0]) [] [] 0"
    using ctor_ring0 by (rule reach.constructed)
  moreover have "rev [0..<v_size ring0] = [3, 2, 1, 0]"
    by code_simp
  ultimately show ?thesis
    by simp
qed

lemma reach_ring_waited:
  "reach (ring_ready\<lparr>v_available_descriptors := 2\<rparr>) [3, 2, 1, 0] [] [] 2"
proof -
  have "(0::nat) + 2 = 2"
    by simp
  with reach.waited [OF reach_ring_ready wait_ring_ready] show ?thesis
    by (simp only:)
qed

lemma reach_ring_tx_posted: "reach ring_tx_posted [1, 0] [[2, 3]] [] 0"
proof -
  have "reach (ring_tx_posted\<lparr>v_avail_idx := 0, v_avail_added_since_kick := 1, v_kicks := 0\<rparr>)
          [1, 0] [[2, 3]] [] 0"
  proof -
    let ?bc = "[\<lparr>b_addr = 4096, b_len = 10, b_completed = Tx_done packet64_sent,
                  b_writeable = False\<rparr>,
                \<lparr>b_addr = 8192, b_len = 64, b_completed = Unattached, b_writeable = False\<rparr>]"
    have "?bc \<noteq> []" "length ?bc \<le> 2"
      by simp_all
    from reach.posted [OF reach_ring_waited this post_chain_ring_ready]
    have "reach (ring_tx_posted\<lparr>v_avail_idx := 0, v_avail_added_since_kick := 1, v_kicks := 0\<rparr>)
            (drop (length ?bc) [3, 2, 1, 0]) ([] @ [rev (take (length ?bc) [3, 2, 1, 0])]) []
            (2 - length ?bc)" .
    moreover have "drop (length ?bc) [3 :: nat, 2, 1, 0] = [1, 0]"
      "[] @ [rev (take (length ?bc) [3 :: nat, 2, 1, 0])] = [[2, 3]]" "2 - length ?bc = 0"
      by simp_all
    ultimately show ?thesis
      by (simp only:)
  qed
  from reach.published [OF this] show ?thesis
    unfolding publish_ring .
qed

lemma reports_tx: "reports ring_tx_reported [[2, 3]]"
  by code_simp

lemma reach_ring_tx_reported: "reach ring_tx_reported [1, 0] [[2, 3]] [[2, 3]] 0"
proof -
  have "length [\<lparr>ue_id = 2, ue_len = 0\<rparr>, \<lparr>ue_id = 0, ue_len = 0\<rparr>,
                \<lparr>ue_id = 0, ue_len = 0\<rparr>, \<lparr>ue_id = 0, ue_len = 0\<rparr>] = v_size ring_tx_posted"
    by (simp add: ring_tx_posted_def ring0_def)
  moreover have "reports ring_tx_reported ([] @ [[2, 3]])" "set [[2 :: nat, 3]] \<subseteq> set [[2, 3]]"
    using reports_tx by simp_all
  ultimately have "reach ring_tx_reported [1, 0] [[2, 3]] ([] @ [[2, 3]]) 0"
    using reach_ring_tx_posted ring_tx_reported_def by (intro reach.reported) auto
  then show ?thesis
    by simp
qed

subsection \<open>The transmit queue\<close>

text \<open>
  C8: for every packet \<open>p\<close>, \<open>txq::post\<close> waits on the semaphore of available
  descriptors for exactly \<open>nr_frags p + 1\<close> permits, one per fragment and one for the
  prepended header; only when they are there does it build the chain (the header
  first, every buffer read-only) and post it to the ring, which by then holds
  \<open>nr_frags p + 1\<close> permits fewer.
\<close>

theorem txq_post_permits:
  "tx_permits (txq_post eth hw hl vb fuel ring oi p) = nr_frags p + 1 \<and>
   tx_ring (txq_post eth hw hl vb fuel ring oi p) =
     (if nr_frags p + 1 \<le> v_available_descriptors ring
      then Proceeds (post fuel
             (ring\<lparr>v_available_descriptors := v_available_descriptors ring - (nr_frags p + 1)\<rparr>)
             [\<lparr>b_addr = vb, b_len = ucast hl,
               b_completed = Tx_done (packet_prepend \<lparr>f_base = vb, f_size = hl\<rparr> p),
               b_writeable = False\<rparr> # map tx_buffer (p_fragments p)])
      else Blocked)"
  by (simp add: txq_post_def Let_def nr_frags_def packet_prepend_def semaphore_wait_def
      tx_chain_def tx_buffer_def)

theorem txq_post_permits_witness:
  "tx_permits (txq_post 14 hw_offload 10 4096 4 ring_ready oi_tcp packet64) = 2 \<and>
   tx_ring (txq_post 14 hw_offload 10 4096 4 ring_ready oi_tcp packet64) =
     Proceeds (Some (Inr ring_tx_posted)) \<and>
   tx_ring (txq_post 14 hw_offload 10 4096 4 ring0 oi_tcp packet64) = Blocked"
proof -
  have "nr_frags packet64 + 1 = 2" "\<not> nr_frags packet64 + 1 \<le> v_available_descriptors ring0"
    by (simp_all add: nr_frags_def packet64_def ring0_def)
  then show ?thesis
    using txq_post_permits [of 14 hw_offload 10 4096 4 ring_ready oi_tcp packet64]
          txq_post_permits [of 14 hw_offload 10 4096 4 ring0 oi_tcp packet64]
          txq_post_ring_ready
    by simp
qed

subsection \<open>Posting chains\<close>

lemma chain_descs_length: "length (chain_descs fs bcs) = length bcs"
  by (induction bcs arbitrary: fs) simp_all

lemma chain_descs_nth:
  "k < length bcs \<Longrightarrow>
   chain_descs fs bcs ! k =
     rev (take (length (bcs ! k)) (drop (length (concat (take k bcs))) fs))"
proof (induction bcs arbitrary: fs k)
  case Nil
  then show ?case by simp
next
  case (Cons bc bcs)
  show ?case
  proof (cases k)
    case 0
    then show ?thesis by simp
  next
    case (Suc k')
    then have "k' < length bcs"
      using Cons.prems by simp
    from Cons.IH [OF this, of "drop (length bc) fs"] show ?thesis
      by (simp add: Suc add.commute)
  qed
qed

lemma length_le_concat: "\<forall>bc \<in> set bcs. bc \<noteq> [] \<Longrightarrow> length bcs \<le> length (concat bcs)"
proof (induction bcs)
  case Nil
  then show ?case by simp
next
  case (Cons bc bcs)
  have "length bcs \<le> length (concat bcs)"
    using Cons by simp
  moreover have "bc \<noteq> []"
    using Cons.prems by simp
  ultimately show ?case
    by (cases bc) simp_all
qed

text \<open>
  Slots of the available ring: fewer than \<open>size\<close> consecutive values of the head counter
  fall into different slots, also across the wrap of the 16-bit counter.
\<close>

lemma slot_distinct:
  fixes a j m :: nat
  assumes "0 < j" and "j < m"
  shows "(a + j) mod m \<noteq> a mod m"
proof
  assume "(a + j) mod m = a mod m"
  then have "m dvd (a + j) - a"
    by (simp add: mod_eq_dvd_iff_nat)
  then have "m dvd j"
    by simp
  then show False
    using assms by (auto dest: dvd_imp_le)
qed

lemma slot_word:
  fixes w :: "16 word"
  assumes "k \<le> 16"
  shows "(unat (w + of_nat j) + i) mod 2 ^ k = (unat w + j + i) mod 2 ^ k"
proof -
  have dvd: "(2::nat) ^ k dvd 2 ^ 16"
    using assms by (rule le_imp_power_dvd)
  have "unat (w + of_nat j) = (unat w + j) mod 2 ^ 16"
    by (simp add: unat_word_ariths unat_of_nat mod_add_right_eq)
  then have "unat (w + of_nat j) mod 2 ^ k = (unat w + j) mod 2 ^ k"
    using dvd by (simp only: mod_mod_cancel)
  then have "(unat (w + of_nat j) mod 2 ^ k + i) mod 2 ^ k = ((unat w + j) mod 2 ^ k + i) mod 2 ^ k"
    by simp
  then show ?thesis
    by (simp only: mod_add_left_eq)
qed

text \<open>
  The \<open>std::for_each\<close> of \<open>vring::post\<close> over chains for whose buffers the permits
  were taken: chain after chain takes its descriptors from the front of the free list,
  the descriptors of the earlier chains and their slots of the available ring are left
  as they were written, and all the new chains are in flight.
\<close>

lemma post_chains_effect:
  assumes "vring_inv v fs cs r" and "\<forall>bc \<in> set bcs. bc \<noteq> []" and "length (concat bcs) \<le> r"
  shows "\<exists>ds' cm' p' ar'.
     post_chains v bcs =
       Inr (v\<lparr>v_descs := ds', v_completions := cm', v_free_desc := p', v_avail_ring := ar',
              v_avail_head := v_avail_head v + of_nat (length bcs),
              v_avail_added_since_kick := v_avail_added_since_kick v + of_nat (length bcs)\<rparr>) \<and>
     vring_inv (v\<lparr>v_descs := ds', v_completions := cm', v_free_desc := p', v_avail_ring := ar',
              v_avail_head := v_avail_head v + of_nat (length bcs),
              v_avail_added_since_kick := v_avail_added_since_kick v + of_nat (length bcs)\<rparr>)
       (drop (length (concat bcs)) fs) (cs @ chain_descs fs bcs) (r - length (concat bcs)) \<and>
     (\<forall>j. j \<notin> set (take (length (concat bcs)) fs) \<longrightarrow>
          ds' ! j = v_descs v ! j \<and> cm' ! j = v_completions v ! j) \<and>
     (\<forall>s. (\<forall>k < length bcs. s \<noteq> (unat (v_avail_head v) + k) mod v_size v) \<longrightarrow>
          ar' ! s = v_avail_ring v ! s) \<and>
     (\<forall>k < length bcs.
        (\<forall>i < length (bcs ! k).
           ds' ! (chain_descs fs bcs ! k ! i) =
             posted_desc (bcs ! k ! i) (Suc i < length (bcs ! k))
               (if Suc i < length (bcs ! k) then chain_descs fs bcs ! k ! Suc i else 0) \<and>
           cm' ! (chain_descs fs bcs ! k ! i) = b_completed (bcs ! k ! i)) \<and>
        ar' ! ((unat (v_avail_head v) + k) mod v_size v) = of_nat (hd (chain_descs fs bcs ! k)))"
  using assms
proof (induction bcs arbitrary: v fs cs r)
  case Nil
  have "v\<lparr>v_descs := v_descs v, v_completions := v_completions v, v_free_desc := v_free_desc v,
          v_avail_ring := v_avail_ring v, v_avail_head := v_avail_head v + of_nat (length ([] :: buffer list list)),
          v_avail_added_since_kick := v_avail_added_since_kick v + of_nat (length ([] :: buffer list list))\<rparr> = v"
    by simp
  then show ?case
    using Nil.prems(1)
    by (intro exI [of _ "v_descs v"] exI [of _ "v_completions v"] exI [of _ "v_free_desc v"]
        exI [of _ "v_avail_ring v"]) simp
next
  case (Cons bc bcs)
  define n where "n = length bc"
  define m where "m = length (concat bcs)"
  define ch where "ch = rev (take n fs)"
  define h where "h = unat (v_avail_head v)"
  have bc: "bc \<noteq> []" "length bc \<le> r" and rest: "\<forall>bc \<in> set bcs. bc \<noteq> []" and m: "m \<le> r - n"
    using Cons.prems(2,3) by (simp_all add: n_def m_def)
  obtain \<kappa> where \<kappa>: "\<kappa> \<le> 16" "v_size v = 2 ^ \<kappa>"
    using Cons.prems(1) by (auto simp: vring_inv_def)
  from post_chain_effect [OF Cons.prems(1) bc, folded n_def, folded ch_def]
  obtain ds1 cm1 p1 where run1: "post_chain v bc =
             Inr (v\<lparr>v_descs := ds1, v_completions := cm1, v_free_desc := p1,
                    v_avail_ring := (v_avail_ring v)[h mod v_size v := of_nat (hd ch)],
                    v_avail_head := v_avail_head v + 1,
                    v_avail_added_since_kick := v_avail_added_since_kick v + 1\<rparr>)"
    and inv1: "vring_inv (v\<lparr>v_descs := ds1, v_completions := cm1, v_free_desc := p1,
                    v_avail_ring := (v_avail_ring v)[h mod v_size v := of_nat (hd ch)],
                    v_avail_head := v_avail_head v + 1,
                    v_avail_added_since_kick := v_avail_added_since_kick v + 1\<rparr>)
                  (drop n fs) (cs @ [ch]) (r - n)"
    and len1: "length ch = n"
    and point1: "\<forall>i < n. ds1 ! (ch ! i) =
                       posted_desc (bc ! i) (Suc i < n) (if Suc i < n then ch ! Suc i else 0) \<and>
                     cm1 ! (ch ! i) = b_completed (bc ! i)"
    and frame1: "\<forall>j. j \<notin> set ch \<longrightarrow> ds1 ! j = v_descs v ! j \<and> cm1 ! j = v_completions v ! j"
    unfolding h_def by blast
  define v1 where "v1 = v\<lparr>v_descs := ds1, v_completions := cm1, v_free_desc := p1,
                    v_avail_ring := (v_avail_ring v)[h mod v_size v := of_nat (hd ch)],
                    v_avail_head := v_avail_head v + 1,
                    v_avail_added_since_kick := v_avail_added_since_kick v + 1\<rparr>"
  have v1_sel: "v_descs v1 = ds1" "v_completions v1 = cm1" "v_size v1 = v_size v"
    "v_avail_ring v1 = (v_avail_ring v)[h mod v_size v := of_nat (hd ch)]"
    "v_avail_head v1 = v_avail_head v + 1"
    by (simp_all add: v1_def)
  have inv1': "vring_inv v1 (drop n fs) (cs @ [ch]) (r - n)"
    using inv1 unfolding v1_def .
  from Cons.IH [OF inv1' rest, folded m_def, OF m]
  obtain ds' cm' p' ar' where run2: "post_chains v1 bcs =
       Inr (v1\<lparr>v_descs := ds', v_completions := cm', v_free_desc := p', v_avail_ring := ar',
              v_avail_head := v_avail_head v1 + of_nat (length bcs),
              v_avail_added_since_kick := v_avail_added_since_kick v1 + of_nat (length bcs)\<rparr>)"
    and inv2: "vring_inv (v1\<lparr>v_descs := ds', v_completions := cm', v_free_desc := p', v_avail_ring := ar',
              v_avail_head := v_avail_head v1 + of_nat (length bcs),
              v_avail_added_since_kick := v_avail_added_since_kick v1 + of_nat (length bcs)\<rparr>)
       (drop m (drop n fs)) ((cs @ [ch]) @ chain_descs (drop n fs) bcs) (r - n - m)"
    and frame2: "\<forall>j. j \<notin> set (take m (drop n fs)) \<longrightarrow>
          ds' ! j = v_descs v1 ! j \<and> cm' ! j = v_completions v1 ! j"
    and ring2: "\<forall>s. (\<forall>k < length bcs. s \<noteq> (unat (v_avail_head v1) + k) mod v_size v1) \<longrightarrow>
          ar' ! s = v_avail_ring v1 ! s"
    and point2: "\<forall>k < length bcs.
        (\<forall>i < length (bcs ! k).
           ds' ! (chain_descs (drop n fs) bcs ! k ! i) =
             posted_desc (bcs ! k ! i) (Suc i < length (bcs ! k))
               (if Suc i < length (bcs ! k) then chain_descs (drop n fs) bcs ! k ! Suc i else 0) \<and>
           cm' ! (chain_descs (drop n fs) bcs ! k ! i) = b_completed (bcs ! k ! i)) \<and>
        ar' ! ((unat (v_avail_head v1) + k) mod v_size v1) =
          of_nat (hd (chain_descs (drop n fs) bcs ! k))"
    by blast
  define v' where "v' = v\<lparr>v_descs := ds', v_completions := cm', v_free_desc := p', v_avail_ring := ar',
              v_avail_head := v_avail_head v + of_nat (length (bc # bcs)),
              v_avail_added_since_kick := v_avail_added_since_kick v + of_nat (length (bc # bcs))\<rparr>"
  have v'_eq: "v1\<lparr>v_descs := ds', v_completions := cm', v_free_desc := p', v_avail_ring := ar',
              v_avail_head := v_avail_head v1 + of_nat (length bcs),
              v_avail_added_since_kick := v_avail_added_since_kick v1 + of_nat (length bcs)\<rparr> = v'"
    by (simp add: v1_def v'_def add.assoc)
  have result: "post_chains v (bc # bcs) = Inr v'"
    using run1 run2 by (simp add: v1_def [symmetric] v'_eq)
  have inv': "vring_inv v' (drop (length (concat (bc # bcs))) fs) (cs @ chain_descs fs (bc # bcs))
                (r - length (concat (bc # bcs)))"
    using inv2 unfolding v'_eq by (simp add: n_def m_def ch_def add.commute)
  have dist: "distinct fs"
    using Cons.prems(1) by (simp add: vring_inv_def)
  have size: "length fs \<le> v_size v"
    using vring_inv_count [OF Cons.prems(1)] by simp
  have avail: "r \<le> length fs"
    using Cons.prems(1) by (simp add: vring_inv_def)
  have n0: "0 < n" and nfs: "n \<le> length fs"
    using bc avail by (simp_all add: n_def)
  have set_ch: "set ch = set (take n fs)"
    by (simp add: ch_def)
  have disj: "set ch \<inter> set (take m (drop n fs)) = {}"
  proof -
    have "distinct (take n fs @ drop n fs)"
      using dist by simp
    then have "set (take n fs) \<inter> set (drop n fs) = {}"
      by (simp only: distinct_append) 
    then show ?thesis
      unfolding set_ch by (auto dest: in_set_takeD)
  qed
  have split: "set (take (n + m) fs) = set ch \<union> set (take m (drop n fs))"
    by (simp add: take_add set_ch)
  have frame: "\<forall>j. j \<notin> set (take (length (concat (bc # bcs))) fs) \<longrightarrow>
          ds' ! j = v_descs v ! j \<and> cm' ! j = v_completions v ! j"
    using frame1 frame2 split by (simp add: v1_sel n_def [symmetric] m_def [symmetric])
  have slots: "(unat (v_avail_head v1) + k) mod v_size v1 = (h + Suc k) mod v_size v" for k
    using slot_word [OF \<kappa>(1), of "v_avail_head v" 1 k]
    by (simp add: v1_sel \<kappa>(2) h_def)
  have ring2': "\<forall>s. (\<forall>k < length bcs. s \<noteq> (h + Suc k) mod v_size v) \<longrightarrow>
          ar' ! s = v_avail_ring v1 ! s"
    using ring2 by (simp only: slots)
  have point2': "\<forall>k < length bcs.
        (\<forall>i < length (bcs ! k).
           ds' ! (chain_descs (drop n fs) bcs ! k ! i) =
             posted_desc (bcs ! k ! i) (Suc i < length (bcs ! k))
               (if Suc i < length (bcs ! k) then chain_descs (drop n fs) bcs ! k ! Suc i else 0) \<and>
           cm' ! (chain_descs (drop n fs) bcs ! k ! i) = b_completed (bcs ! k ! i)) \<and>
        ar' ! ((h + Suc k) mod v_size v) =
          of_nat (hd (chain_descs (drop n fs) bcs ! k))"
    using point2 by (simp only: slots)
  have count: "Suc (length bcs) \<le> v_size v"
  proof -
    have "length bcs \<le> m"
      using length_le_concat [OF rest] by (simp add: m_def)
    moreover have "n \<le> r"
      using bc(2) by (simp add: n_def)
    ultimately show ?thesis
      using m n0 avail size by arith
  qed
  have slot0: "h mod v_size v \<noteq> (h + Suc k) mod v_size v" if "k < length bcs" for k
    using slot_distinct [of "Suc k" "v_size v" h] that count by simp
  have slot0_lt: "h mod v_size v < length (v_avail_ring v)"
    using Cons.prems(1) \<kappa> by (simp add: vring_inv_def)
  have ring0: "ar' ! (h mod v_size v) = of_nat (hd ch)"
  proof -
    have "ar' ! (h mod v_size v) = v_avail_ring v1 ! (h mod v_size v)"
      using ring2' slot0 by simp
    then show ?thesis
      using slot0_lt by (simp add: v1_sel)
  qed
  have ring: "\<forall>s. (\<forall>k < length (bc # bcs). s \<noteq> (h + k) mod v_size v) \<longrightarrow>
          ar' ! s = v_avail_ring v ! s"
  proof (intro allI impI)
    fix s assume s: "\<forall>k < length (bc # bcs). s \<noteq> (h + k) mod v_size v"
    then have "s \<noteq> h mod v_size v"
      by (auto dest: spec [of _ 0])
    moreover have "\<forall>k < length bcs. s \<noteq> (h + Suc k) mod v_size v"
      using s by auto
    ultimately show "ar' ! s = v_avail_ring v ! s"
      using ring2' by (simp add: v1_sel)
  qed
  have point: "(\<forall>i < length ((bc # bcs) ! k).
           ds' ! (chain_descs fs (bc # bcs) ! k ! i) =
             posted_desc ((bc # bcs) ! k ! i) (Suc i < length ((bc # bcs) ! k))
               (if Suc i < length ((bc # bcs) ! k) then chain_descs fs (bc # bcs) ! k ! Suc i else 0) \<and>
           cm' ! (chain_descs fs (bc # bcs) ! k ! i) = b_completed ((bc # bcs) ! k ! i)) \<and>
        ar' ! ((h + k) mod v_size v) = of_nat (hd (chain_descs fs (bc # bcs) ! k))"
    if k: "k < length (bc # bcs)" for k
  proof (cases k)
    case 0
    have "ds' ! (ch ! i) = posted_desc (bc ! i) (Suc i < n) (if Suc i < n then ch ! Suc i else 0) \<and>
          cm' ! (ch ! i) = b_completed (bc ! i)" if i: "i < n" for i
    proof -
      have "ch ! i \<in> set ch"
        using i len1 by simp
      then have "ch ! i \<notin> set (take m (drop n fs))"
        using disj by auto
      then have "ds' ! (ch ! i) = ds1 ! (ch ! i)" "cm' ! (ch ! i) = cm1 ! (ch ! i)"
        using frame2 by (simp_all add: v1_sel)
      then show ?thesis
        using point1 i by simp
    qed
    then show ?thesis
      using ring0 by (simp add: 0 n_def [symmetric] ch_def [symmetric])
  next
    case (Suc k')
    then have "k' < length bcs"
      using k by simp
    from point2' [rule_format, OF this] show ?thesis
      by (simp add: Suc n_def [symmetric])
  qed
  show ?case
    using result inv' frame ring point unfolding v'_def h_def by blast
qed

lemma wait_three_ring_ready:
  "semaphore_wait ring_ready 3 = Proceeds (ring_ready\<lparr>v_available_descriptors := 1\<rparr>)"
  by code_simp

lemma inv_ring_waited_three:
  "vring_inv (ring_ready\<lparr>v_available_descriptors := 1\<rparr>) [3, 2, 1, 0] [] 3"
proof -
  have "(0::nat) + 3 = 3"
    by simp
  with reach.waited [OF reach_ring_ready wait_three_ring_ready]
  have "reach (ring_ready\<lparr>v_available_descriptors := 1\<rparr>) [3, 2, 1, 0] [] [] 3"
    by (simp only:)
  from reach_inv [OF this] show ?thesis
    by simp
qed

lemma post_chains_two:
  "post_chains (ring_ready\<lparr>v_available_descriptors := 1\<rparr>) two_chains = Inr ring_two_posted"
  by code_simp

text \<open>
  C7: \<open>vring::post\<close> is given the chains \<open>bcs\<close>, none of them empty, on a well-formed
  ring with free list \<open>fs\<close> on which a permit was taken for every buffer. The
  \<open>std::for_each\<close> over the chains (\<open>post_chains\<close>) returns, and \<open>post\<close> goes on from its
  state with the store of \<open>avail.idx\<close>, \<open>kick\<close> and \<open>do_complete\<close>. For each chain \<open>k\<close>, of
  \<open>n\<close> buffers, exactly \<open>n\<close> descriptors are allocated, the next \<open>n\<close> of the free list
  after the \<open>off\<close> that the chains before it took, the buffers being served last to
  first: buffer \<open>i\<close> gets \<open>ch ! i = fs ! (off + (n - 1 - i))\<close>. The descriptor of buffer
  \<open>i\<close> has the buffer's address, length and writeable flag, \<open>has_next\<close> set unless \<open>i\<close> is
  the last buffer of the chain, and \<open>next\<close> naming the descriptor of buffer \<open>i + 1\<close> (0
  for the last buffer), so that \<open>ch\<close> is a forward chain. The index of the first
  buffer's descriptor stands in \<open>avail.ring[head mod size]\<close> for the value \<open>head\<close> the
  head counter had when the chain was reached, which is the initial value plus \<open>k\<close>:
  the counter grows by one per chain, by \<open>length bcs\<close> in all, and so does the number of
  chains added since the last kick. The free list is left without the descriptors
  taken, and no other descriptor and no other slot of the available ring is changed.
\<close>

theorem post_descriptors:
  assumes inv: "vring_inv v fs cs r"
    and bcs: "\<forall>bc \<in> set bcs. bc \<noteq> []" "length (concat bcs) \<le> r"
  shows "\<exists>v' ds' cm' p' ar'.
     v' = v\<lparr>v_descs := ds', v_completions := cm', v_free_desc := p', v_avail_ring := ar',
            v_avail_head := v_avail_head v + of_nat (length bcs),
            v_avail_added_since_kick := v_avail_added_since_kick v + of_nat (length bcs)\<rparr> \<and>
     post_chains v bcs = Inr v' \<and>
     post fuel v bcs = do_complete fuel (kick (v'\<lparr>v_avail_idx := v_avail_head v'\<rparr>)) \<and>
     free_list ds' p' (drop (length (concat bcs)) fs) \<and>
     (\<forall>k < length bcs. \<forall>bc n off ch.
        bc = bcs ! k \<and> n = length bc \<and> off = length (concat (take k bcs)) \<and>
        ch = chain_descs fs bcs ! k \<longrightarrow>
          length ch = n \<and>
          (\<forall>i < n. ch ! i = fs ! (off + (n - 1 - i)) \<and>
                    ds' ! (ch ! i) =
                      \<lparr>d_paddr = b_addr (bc ! i), d_len = b_len (bc ! i),
                       d_has_next = (Suc i < n), d_writeable = b_writeable (bc ! i),
                       d_indirect = False,
                       d_next = of_nat (if Suc i < n then ch ! Suc i else 0)\<rparr> \<and>
                    cm' ! (ch ! i) = b_completed (bc ! i)) \<and>
          is_chain ds' ch \<and>
          ar' ! (unat (v_avail_head v + of_nat k) mod v_size v) = of_nat (hd ch)) \<and>
     (\<forall>j. j \<notin> set (take (length (concat bcs)) fs) \<longrightarrow> ds' ! j = v_descs v ! j) \<and>
     (\<forall>s. (\<forall>k < length bcs. s \<noteq> unat (v_avail_head v + of_nat k) mod v_size v) \<longrightarrow>
          ar' ! s = v_avail_ring v ! s)"
proof -
  obtain \<kappa> where \<kappa>: "\<kappa> \<le> 16" "v_size v = 2 ^ \<kappa>"
    using inv by (auto simp: vring_inv_def)
  have slot: "(unat (v_avail_head v) + k) mod v_size v =
              unat (v_avail_head v + of_nat k) mod v_size v" for k
    using slot_word [OF \<kappa>(1), of "v_avail_head v" k 0] by (simp add: \<kappa>(2))
  from post_chains_effect [OF inv bcs]
  obtain ds' cm' p' ar' where run: "post_chains v bcs =
       Inr (v\<lparr>v_descs := ds', v_completions := cm', v_free_desc := p', v_avail_ring := ar',
              v_avail_head := v_avail_head v + of_nat (length bcs),
              v_avail_added_since_kick := v_avail_added_since_kick v + of_nat (length bcs)\<rparr>)"
    and inv': "vring_inv (v\<lparr>v_descs := ds', v_completions := cm', v_free_desc := p', v_avail_ring := ar',
              v_avail_head := v_avail_head v + of_nat (length bcs),
              v_avail_added_since_kick := v_avail_added_since_kick v + of_nat (length bcs)\<rparr>)
       (drop (length (concat bcs)) fs) (cs @ chain_descs fs bcs) (r - length (concat bcs))"
    and frame: "\<forall>j. j \<notin> set (take (length (concat bcs)) fs) \<longrightarrow>
          ds' ! j = v_descs v ! j \<and> cm' ! j = v_completions v ! j"
    and ring: "\<forall>s. (\<forall>k < length bcs. s \<noteq> (unat (v_avail_head v) + k) mod v_size v) \<longrightarrow>
          ar' ! s = v_avail_ring v ! s"
    and point: "\<forall>k < length bcs.
        (\<forall>i < length (bcs ! k).
           ds' ! (chain_descs fs bcs ! k ! i) =
             posted_desc (bcs ! k ! i) (Suc i < length (bcs ! k))
               (if Suc i < length (bcs ! k) then chain_descs fs bcs ! k ! Suc i else 0) \<and>
           cm' ! (chain_descs fs bcs ! k ! i) = b_completed (bcs ! k ! i)) \<and>
        ar' ! ((unat (v_avail_head v) + k) mod v_size v) = of_nat (hd (chain_descs fs bcs ! k))"
    by blast
  define v' where "v' = v\<lparr>v_descs := ds', v_completions := cm', v_free_desc := p',
            v_avail_ring := ar',
            v_avail_head := v_avail_head v + of_nat (length bcs),
            v_avail_added_since_kick := v_avail_added_since_kick v + of_nat (length bcs)\<rparr>"
  have run': "post_chains v bcs = Inr v'"
    using run by (simp only: v'_def)
  have post': "post fuel v bcs = do_complete fuel (kick (v'\<lparr>v_avail_idx := v_avail_head v'\<rparr>))"
    by (simp add: post_def run')
  have fl: "free_list ds' p' (drop (length (concat bcs)) fs)"
    and chains: "\<forall>c \<in> set (chain_descs fs bcs). is_chain ds' c"
    using inv' by (simp_all add: vring_inv_def)
  have total: "length (concat bcs) \<le> length fs"
    using inv bcs(2) by (simp add: vring_inv_def)
  have each: "length ch = n \<and>
          (\<forall>i < n. ch ! i = fs ! (off + (n - 1 - i)) \<and>
                    ds' ! (ch ! i) =
                      \<lparr>d_paddr = b_addr (bc ! i), d_len = b_len (bc ! i),
                       d_has_next = (Suc i < n), d_writeable = b_writeable (bc ! i),
                       d_indirect = False,
                       d_next = of_nat (if Suc i < n then ch ! Suc i else 0)\<rparr> \<and>
                    cm' ! (ch ! i) = b_completed (bc ! i)) \<and>
          is_chain ds' ch \<and>
          ar' ! (unat (v_avail_head v + of_nat k) mod v_size v) = of_nat (hd ch)"
    if k: "k < length bcs" and eqs: "bc = bcs ! k" "n = length bc"
      "off = length (concat (take k bcs))" "ch = chain_descs fs bcs ! k"
    for k bc n off ch
  proof -
    have ch: "ch = rev (take n (drop off fs))"
      using chain_descs_nth [OF k, of fs] by (simp add: eqs)
    have "concat bcs = concat (take k bcs) @ bc @ concat (drop (Suc k) bcs)"
      using k by (metis eqs(1) append_take_drop_id concat.simps(2) concat_append Cons_nth_drop_Suc)
    then have "off + n \<le> length (concat bcs)"
      by (simp add: eqs(2,3))
    then have fits: "off + n \<le> length fs"
      using total by simp
    then have len: "length ch = n"
      by (simp add: ch)
    have nth: "ch ! i = fs ! (off + (n - 1 - i))" if "i < n" for i
      using that fits by (simp add: ch rev_nth)
    have "ch \<in> set (chain_descs fs bcs)"
      using k by (simp add: eqs(4) chain_descs_length)
    then have chain: "is_chain ds' ch"
      using chains by blast
    have "\<forall>i < n. ch ! i = fs ! (off + (n - 1 - i)) \<and>
                    ds' ! (ch ! i) =
                      \<lparr>d_paddr = b_addr (bc ! i), d_len = b_len (bc ! i),
                       d_has_next = (Suc i < n), d_writeable = b_writeable (bc ! i),
                       d_indirect = False,
                       d_next = of_nat (if Suc i < n then ch ! Suc i else 0)\<rparr> \<and>
                    cm' ! (ch ! i) = b_completed (bc ! i)"
      using point [rule_format, OF k, THEN conjunct1] nth
      by (simp add: eqs posted_desc_def)
    moreover have "ar' ! (unat (v_avail_head v + of_nat k) mod v_size v) = of_nat (hd ch)"
      using point [rule_format, OF k, THEN conjunct2] by (simp add: slot eqs(4))
    ultimately show ?thesis
      using len chain by blast
  qed
  have frame': "\<forall>j. j \<notin> set (take (length (concat bcs)) fs) \<longrightarrow> ds' ! j = v_descs v ! j"
    using frame by simp
  have ring': "\<forall>s. (\<forall>k < length bcs. s \<noteq> unat (v_avail_head v + of_nat k) mod v_size v) \<longrightarrow>
          ar' ! s = v_avail_ring v ! s"
    using ring by (simp add: slot)
  have all: "\<forall>k < length bcs. \<forall>bc n off ch.
        bc = bcs ! k \<and> n = length bc \<and> off = length (concat (take k bcs)) \<and>
        ch = chain_descs fs bcs ! k \<longrightarrow>
          length ch = n \<and>
          (\<forall>i < n. ch ! i = fs ! (off + (n - 1 - i)) \<and>
                    ds' ! (ch ! i) =
                      \<lparr>d_paddr = b_addr (bc ! i), d_len = b_len (bc ! i),
                       d_has_next = (Suc i < n), d_writeable = b_writeable (bc ! i),
                       d_indirect = False,
                       d_next = of_nat (if Suc i < n then ch ! Suc i else 0)\<rparr> \<and>
                    cm' ! (ch ! i) = b_completed (bc ! i)) \<and>
          is_chain ds' ch \<and>
          ar' ! (unat (v_avail_head v + of_nat k) mod v_size v) = of_nat (hd ch)"
    by (intro allI impI, elim conjE, rule each)
  show ?thesis
    by (intro exI [of _ v'] exI [of _ ds'] exI [of _ cm'] exI [of _ p'] exI [of _ ar'] conjI)
       (fact v'_def run' post' fl all frame' ring')+
qed

theorem post_descriptors_witness:
  "post_chains (ring_ready\<lparr>v_available_descriptors := 1\<rparr>) two_chains = Inr ring_two_posted \<and>
   post 4 (ring_ready\<lparr>v_available_descriptors := 1\<rparr>) two_chains =
     do_complete 4 (kick (ring_two_posted\<lparr>v_avail_idx := 2\<rparr>)) \<and>
   is_chain (v_descs ring_two_posted) [2, 3] \<and>
   is_chain (v_descs ring_two_posted) [1] \<and>
   free_list (v_descs ring_two_posted) (v_free_desc ring_two_posted) [0] \<and>
   v_avail_ring ring_two_posted ! 0 = 2 \<and> v_avail_ring ring_two_posted ! 1 = 1"
proof -
  have ok: "\<forall>bc \<in> set two_chains. bc \<noteq> []" "length (concat two_chains) \<le> 3"
    by (simp_all add: two_chains_def)
  from post_descriptors [OF inv_ring_waited_three ok, of 4]
  obtain v' ds' cm' p' ar' where
    v': "v' = (ring_ready\<lparr>v_available_descriptors := 1\<rparr>)\<lparr>v_descs := ds', v_completions := cm',
            v_free_desc := p', v_avail_ring := ar',
            v_avail_head := v_avail_head (ring_ready\<lparr>v_available_descriptors := 1\<rparr>)
                              + of_nat (length two_chains),
            v_avail_added_since_kick :=
              v_avail_added_since_kick (ring_ready\<lparr>v_available_descriptors := 1\<rparr>)
                + of_nat (length two_chains)\<rparr>"
    and run: "post_chains (ring_ready\<lparr>v_available_descriptors := 1\<rparr>) two_chains = Inr v'"
    and post': "post 4 (ring_ready\<lparr>v_available_descriptors := 1\<rparr>) two_chains =
                 do_complete 4 (kick (v'\<lparr>v_avail_idx := v_avail_head v'\<rparr>))"
    and fl: "free_list ds' p' (drop (length (concat two_chains)) [3, 2, 1, 0])"
    and each: "\<forall>k < length two_chains. \<forall>bc n off ch.
        bc = two_chains ! k \<and> n = length bc \<and> off = length (concat (take k two_chains)) \<and>
        ch = chain_descs [3, 2, 1, 0] two_chains ! k \<longrightarrow>
          length ch = n \<and>
          (\<forall>i < n. ch ! i = [3, 2, 1, 0] ! (off + (n - 1 - i)) \<and>
                    ds' ! (ch ! i) =
                      \<lparr>d_paddr = b_addr (bc ! i), d_len = b_len (bc ! i),
                       d_has_next = (Suc i < n), d_writeable = b_writeable (bc ! i),
                       d_indirect = False,
                       d_next = of_nat (if Suc i < n then ch ! Suc i else 0)\<rparr> \<and>
                    cm' ! (ch ! i) = b_completed (bc ! i)) \<and>
          is_chain ds' ch \<and>
          ar' ! (unat (v_avail_head (ring_ready\<lparr>v_available_descriptors := 1\<rparr>) + of_nat k)
                   mod v_size (ring_ready\<lparr>v_available_descriptors := 1\<rparr>)) = of_nat (hd ch)"
    by (elim exE conjE) (rule that)
  have "Inr v' = (Inr ring_two_posted :: error + vring)"
    using run unfolding post_chains_two by (rule sym)
  then have same: "v' = ring_two_posted"
    by (simp only: sum.inject)
  have fields: "v_descs v' = ds'" "v_free_desc v' = p'" "v_avail_ring v' = ar'"
    by (simp_all add: v')
  have sel: "ds' = v_descs ring_two_posted" "p' = v_free_desc ring_two_posted"
    "ar' = v_avail_ring ring_two_posted"
    using fields unfolding same by simp_all
  have head: "v_avail_head ring_two_posted = 2"
    by (simp add: ring_two_posted_def)
  have c0: "chain_descs [3, 2, 1, 0] two_chains ! 0 = [2, 3]"
    and c1: "chain_descs [3, 2, 1, 0] two_chains ! 1 = [1]"
    and rest: "drop (length (concat two_chains)) [3 :: nat, 2, 1, 0] = [0]"
    by (simp_all add: two_chains_def)
  have len: "0 < length two_chains" "1 < length two_chains"
    by (simp_all add: two_chains_def)
  have slots: "unat (v_avail_head (ring_ready\<lparr>v_available_descriptors := 1\<rparr>) + of_nat 0)
                   mod v_size (ring_ready\<lparr>v_available_descriptors := 1\<rparr>) = 0"
    "unat (v_avail_head (ring_ready\<lparr>v_available_descriptors := 1\<rparr>) + of_nat 1)
                   mod v_size (ring_ready\<lparr>v_available_descriptors := 1\<rparr>) = 1"
    by (simp_all add: ring_ready_def ring0_def)
  have heads: "(of_nat (hd [2, 3]) :: 16 word) = 2" "(of_nat (hd [1]) :: 16 word) = 1"
    by simp_all
  note e0 = each [rule_format, OF len(1) conjI [OF refl conjI [OF refl conjI [OF refl c0 [symmetric]]]]]
  note e1 = each [rule_format, OF len(2) conjI [OF refl conjI [OF refl conjI [OF refl c1 [symmetric]]]]]
  have chain0: "is_chain (v_descs ring_two_posted) [2, 3]"
    using e0 [THEN conjunct2, THEN conjunct2, THEN conjunct1] unfolding sel .
  have chain1: "is_chain (v_descs ring_two_posted) [1]"
    using e1 [THEN conjunct2, THEN conjunct2, THEN conjunct1] unfolding sel .
  have slot0: "v_avail_ring ring_two_posted ! 0 = 2"
    using e0 [THEN conjunct2, THEN conjunct2, THEN conjunct2] unfolding sel slots heads .
  have slot1: "v_avail_ring ring_two_posted ! 1 = 1"
    using e1 [THEN conjunct2, THEN conjunct2, THEN conjunct2] unfolding sel slots heads .
  have free: "free_list (v_descs ring_two_posted) (v_free_desc ring_two_posted) [0]"
    using fl unfolding rest sel .
  show ?thesis
    using run [unfolded same] post' [unfolded same head] chain0 chain1 free slot0 slot1
    by (intro conjI)
qed

subsection \<open>Descriptor accounting\<close>

text \<open>
  C5: at every state the ring reaches, with \<open>fs\<close> its free list and \<open>cs\<close> its in-flight
  chains, the free descriptors and the descriptors in flight are all the \<open>size\<close>
  descriptors, each once (\<open>free_count + in_flight = size\<close>), and the semaphore holds one
  permit per free descriptor apart from the \<open>r\<close> permits producers have taken and not
  used yet; so the semaphore count is \<open>size\<close> when nothing is in flight and no permit
  is held. When the host has reported the in-flight chains \<open>ps\<close>, \<open>do_complete\<close> (with
  fuel for a walk of \<open>size\<close> steps) returns; it has walked each reported chain from its
  head and put every descriptor of it on the free list exactly once, has released
  exactly one permit per descriptor freed, and has left a state of the same kind with
  nothing reported.
\<close>

theorem descriptor_accounting:
  assumes "reach v fs cs ps r"
  shows "length fs + length (concat cs) = v_size v \<and>
         free_list (v_descs v) (v_free_desc v) fs \<and>
         (\<forall>c \<in> set cs. is_chain (v_descs v) c) \<and>
         distinct (fs @ concat cs) \<and>
         v_available_descriptors v + r = length fs \<and>
         (cs = [] \<and> r = 0 \<longrightarrow> v_available_descriptors v = v_size v) \<and>
         (\<forall>fuel \<ge> v_size v.
            \<exists>v'. do_complete fuel v = Some (Inr v') \<and>
                 free_list (v_descs v') (v_free_desc v') (rev (concat ps) @ fs) \<and>
                 distinct (rev (concat ps) @ fs) \<and>
                 v_available_descriptors v' = v_available_descriptors v + length (concat ps) \<and>
                 reach v' (rev (concat ps) @ fs) (fold remove1 ps cs) [] r)"
proof -
  have inv: "vring_inv v fs cs r" and rep: "reports v ps" and sub: "set ps \<subseteq> set cs"
    using reach_inv [OF assms] by simp_all
  have count: "length fs + length (concat cs) = v_size v"
    by (rule vring_inv_count [OF inv])
  have parts: "free_list (v_descs v) (v_free_desc v) fs"
    "\<forall>c \<in> set cs. is_chain (v_descs v) c" "distinct (fs @ concat cs)"
    "v_available_descriptors v + r = length fs"
    using inv by (simp_all add: vring_inv_def)
  have idle: "v_available_descriptors v = v_size v" if "cs = []" "r = 0"
    using count parts(4) that by simp
  have step: "\<exists>v'. do_complete fuel v = Some (Inr v') \<and>
                 free_list (v_descs v') (v_free_desc v') (rev (concat ps) @ fs) \<and>
                 distinct (rev (concat ps) @ fs) \<and>
                 v_available_descriptors v' = v_available_descriptors v + length (concat ps) \<and>
                 reach v' (rev (concat ps) @ fs) (fold remove1 ps cs) [] r"
    if fuel: "v_size v \<le> fuel" for fuel
  proof -
    from do_complete_inv [OF inv rep sub fuel]
    obtain v' where run: "do_complete fuel v = Some (Inr v')"
      and inv': "vring_inv v' (rev (concat ps) @ fs) (fold remove1 ps cs) r"
      and av: "v_available_descriptors v' = v_available_descriptors v + length (concat ps)"
      by blast
    have "reach v' (rev (concat ps) @ fs) (fold remove1 ps cs) [] r"
      by (rule reach.completed [OF assms fuel run])
    moreover have "free_list (v_descs v') (v_free_desc v') (rev (concat ps) @ fs)"
      using inv' by (simp add: vring_inv_def)
    moreover have "distinct (rev (concat ps) @ fs)"
    proof -
      have "distinct ((rev (concat ps) @ fs) @ concat (fold remove1 ps cs))"
        using inv' by (simp only: vring_inv_def)
      then show ?thesis
        by (simp only: distinct_append)
    qed
    ultimately show ?thesis
      using run av by blast
  qed
  show ?thesis
    using count parts idle step by blast
qed

theorem descriptor_accounting_witness:
  "v_available_descriptors ring_tx_reported + 0 = length [1 :: nat, 0] \<and>
   length [1 :: nat, 0] + length (concat [[2 :: nat, 3]]) = v_size ring_tx_reported \<and>
   do_complete 4 ring_tx_reported = Some (Inr ring_tx_done) \<and>
   v_available_descriptors ring_tx_done = v_size ring_tx_done \<and>
   free_list (v_descs ring_tx_done) (v_free_desc ring_tx_done) [3, 2, 1, 0]"
proof -
  note acc = descriptor_accounting [OF reach_ring_tx_reported]
  have size: "v_size ring_tx_reported = 4"
    by code_simp
  with acc obtain v' where
    "do_complete 4 ring_tx_reported = Some (Inr v')"
    "free_list (v_descs v') (v_free_desc v') (rev (concat [[2, 3]]) @ [1, 0])"
    "v_available_descriptors v' =
       v_available_descriptors ring_tx_reported + length (concat [[2 :: nat, 3]])"
    by (metis order_refl)
  moreover have "v' = ring_tx_done"
    using calculation(1) do_complete_tx_reported by simp
  moreover have "v_available_descriptors ring_tx_reported = 2" "v_size ring_tx_done = 4"
    by code_simp+
  ultimately show ?thesis
    using acc do_complete_tx_reported size by (simp del: free_list.simps)
qed

subsection \<open>Protocol violations\<close>

text \<open>
  C2 as stated fails: \<open>do_complete\<close> does not detect a \<open>HAS_NEXT\<close> cycle. Here the host
  reports the chain headed by descriptor 2 while descriptors 2 and 3 name each other
  as next. The walk frees 2, 3 and 2 again, runs on into the free list over 1, and
  returns normally: the semaphore holds 6 permits on a ring of 4 descriptors, and
  nothing aborts.
\<close>

theorem do_complete_cycle_counterexample:
  "d_has_next (v_descs ring_cycle ! 2) \<and> unat (d_next (v_descs ring_cycle ! 2)) = 3 \<and>
   d_has_next (v_descs ring_cycle ! 3) \<and> unat (d_next (v_descs ring_cycle ! 3)) = 2 \<and>
   pending ring_cycle = [\<lparr>ue_id = 2, ue_len = 0\<rparr>] \<and>
   do_complete 4 ring_cycle =
     Some (Inr (ring_cycle\<lparr>
       v_descs := [desc_free 65535, desc_free 2,
                   \<lparr>d_paddr = 4096, d_len = 10, d_has_next = True, d_writeable = False,
                    d_indirect = False, d_next = 3\<rparr>,
                   \<lparr>d_paddr = 8192, d_len = 64, d_has_next = True, d_writeable = False,
                    d_indirect = False, d_next = 2\<rparr>],
       v_used_tail := 1, v_fulfilled := [(Tx_done packet64_sent, 0)],
       v_available_descriptors := 6, v_free_desc := 1\<rparr>))"
  by code_simp

text \<open>
  C2, amended: a first RX buffer whose header has \<open>num_buffers = 0\<close> fails the
  assertion of the completion handler: the process aborts, and no later completion is
  handled. \<open>do_complete\<close> validates nothing: whatever the used ring and the descriptor
  table hold, it never ends in an assertion failure; a used element whose id is not
  below \<open>size\<close> makes it index \<open>_completions\<close> outside the array.
\<close>

theorem protocol_violations:
  "(rq_remaining_buffers q = 0 \<longrightarrow>
      rx_completed hl q buf 0 len = Inl Assert_failed \<and>
      rx_completions hl q ((buf, 0, len) # rest) = Inl Assert_failed) \<and>
   do_complete fuel v \<noteq> Some (Inl Assert_failed) \<and>
   (v_used_idx v \<noteq> v_used_tail v \<and>
    masked v (unat (v_used_tail v)) < length (v_used_elements v) \<and>
    length (v_completions v)
      \<le> unat (ue_id (v_used_elements v ! masked v (unat (v_used_tail v)))) \<longrightarrow>
      do_complete (Suc fuel) v = Some (Inl Out_of_bounds))"
proof -
  have "rx_completed hl q buf 0 len = Inl Assert_failed" if "rq_remaining_buffers q = 0"
    using that by (simp add: rx_completed_def Let_def)
  then show ?thesis
    using do_complete_no_abort do_complete_bad_id by simp
qed

theorem protocol_violations_witness:
  "rx_completed 12 rxq0 4096 0 64 = Inl Assert_failed \<and>
   do_complete 4 ring_bad_id = Some (Inl Out_of_bounds) \<and>
   do_complete 4 ring_cycle \<noteq> Some (Inl Assert_failed)"
proof -
  have "rq_remaining_buffers rxq0 = 0"
    by (simp add: rxq0_def)
  moreover have "v_used_idx ring_bad_id \<noteq> v_used_tail ring_bad_id \<and>
    masked ring_bad_id (unat (v_used_tail ring_bad_id)) < length (v_used_elements ring_bad_id) \<and>
    length (v_completions ring_bad_id)
      \<le> unat (ue_id (v_used_elements ring_bad_id ! masked ring_bad_id (unat (v_used_tail ring_bad_id))))"
    by code_simp
  ultimately have "rx_completed 12 rxq0 4096 0 64 = Inl Assert_failed"
    and bad: "do_complete (Suc 3) ring_bad_id = Some (Inl Out_of_bounds)"
    using protocol_violations [of rxq0 12 4096 64 "[]" 3 ring_bad_id] by blast+
  moreover have "do_complete 4 ring_cycle \<noteq> Some (Inl Assert_failed)"
    using protocol_violations [of rxq0 12 4096 64 "[]" 4 ring_cycle] by blast
  moreover have four: "Suc 3 = 4"
    by simp
  ultimately show ?thesis
    unfolding four by blast
qed

end
